theory Spec2Isabelle
  imports Main "HOL-Library.Word" "HOL-Library.Signed_Division"
begin

section \<open>Container discovery: events.go of package discovery\<close>

subsection \<open>Data model\<close>

text \<open>
  Go strings are byte sequences: \<^typ>\<open>string\<close> (a list of 8-bit characters).
  A Go \<^verbatim>\<open>map[string]string\<close> is a partial map; reading a missing key with
  \<^verbatim>\<open>m[k]\<close> gives the empty string, reading with \<^verbatim>\<open>v, ok := m[k]\<close>
  gives the presence bit as well.
\<close>

type_synonym labels = "string \<rightharpoonup> string"

definition index_map :: "labels \<Rightarrow> string \<Rightarrow> string" where
  "index_map m k = (case m k of None \<Rightarrow> [] | Some v \<Rightarrow> v)"

text \<open>
  A compiled \<^verbatim>\<open>*regexp.Regexp\<close> of a pattern supplied by the caller. The regular
  expression library is not part of this package; the only operation the package uses on
  such a value is \<^verbatim>\<open>MatchString\<close>, so a compiled expression is represented by that
  operation. A nil pointer is \<^const>\<open>None\<close>.
\<close>

datatype Regexp = Regexp (MatchString: "string \<Rightarrow> bool")

text \<open>
  The policy fields of \<^verbatim>\<open>EventNotif\<close>. The field \<^verbatim>\<open>includes\<close> is written
  \<open>includes'\<close> (the plain name is reserved in Isabelle). The client and the
  channel of the struct are the effects of the operations below.
\<close>

record EventNotif =
  excludes :: "string list"
  includes' :: "string list"
  includesRegexp :: "Regexp option"
  excludesRegexp :: "Regexp option"

subsection \<open>Inclusion policy\<close>

text \<open>\<^verbatim>\<open>contains(e, s)\<close>: the loop over the slice, returning at the first equal element.\<close>

fun contains :: "string \<Rightarrow> string list \<Rightarrow> bool" where
  "contains e [] = False"
| "contains e (a # s) = (if a = e then True else contains e s)"

definition isAllowed :: "EventNotif \<Rightarrow> string \<Rightarrow> bool" where
  "isAllowed e containerName =
     (case includesRegexp e of
        Some re \<Rightarrow> MatchString re containerName
      | None \<Rightarrow>
         (case excludesRegexp e of
            Some re \<Rightarrow> \<not> MatchString re containerName
          | None \<Rightarrow>
              if length (includes' e) > 0 then contains containerName (includes' e)
              else if contains containerName (excludes e) then False
              else True))"

subsection \<open>The two fixed regular expressions\<close>

text \<open>
  \<^verbatim>\<open>reGroup = regexp.MustCompile(`/(.*?)/`)\<close> and
  \<^verbatim>\<open>reSwarm = regexp.MustCompile(`(?m)(.*)\.(\d+)\.(.*)`)\<close> are constants of the
  package. Both are sequences of the following items: a literal character, a capture
  parenthesis, and a repetition of a one-character class (\<^verbatim>\<open>.*\<close>, the non-greedy
  \<^verbatim>\<open>.*?\<close>, and \<^verbatim>\<open>\d+\<close>). Without the flag \<^verbatim>\<open>s\<close> the dot matches every
  character but the line feed; \<^verbatim>\<open>\d\<close> is an ASCII digit; the flag \<^verbatim>\<open>m\<close> only
  changes \<^verbatim>\<open>^\<close> and \<^verbatim>\<open>$\<close>, which do not occur.

  Go's regexp package returns the leftmost match and, among the matches starting there,
  the one a backtracking search finds first. \<open>run\<close> is that backtracking search from
  one start position: a greedy repetition tries the longer alternative first, a non-greedy
  one the shorter. It threads the current position and the capture positions recorded so
  far, and returns the capture positions and the end position. The literals and the line
  feed are ASCII, so matching bytes and matching UTF-8 runes agree on these two patterns.
\<close>

datatype cls = AnyCharNotNL | Digit

fun cls_matches :: "cls \<Rightarrow> char \<Rightarrow> bool" where
  "cls_matches AnyCharNotNL c = (c \<noteq> CHR 0x0A)"
| "cls_matches Digit c = (c \<in> set ''0123456789'')"

datatype inst = Lit char | Star cls | StarLazy cls | Plus cls | CapOpen | CapClose

fun run :: "inst list \<Rightarrow> string \<Rightarrow> nat \<Rightarrow> nat list \<Rightarrow> (nat list \<times> nat) option" where
  "run [] s pos caps = Some (caps, pos)"
| "run (Lit c # p) s pos caps =
     (case s of [] \<Rightarrow> None
      | x # xs \<Rightarrow> if x = c then run p xs (Suc pos) caps else None)"
| "run (CapOpen # p) s pos caps = run p s pos (caps @ [pos])"
| "run (CapClose # p) s pos caps = run p s pos (caps @ [pos])"
| "run (Star k # p) s pos caps =
     (case s of [] \<Rightarrow> run p [] pos caps
      | x # xs \<Rightarrow>
          if cls_matches k x then
            (case run (Star k # p) xs (Suc pos) caps of
               Some r \<Rightarrow> Some r
             | None \<Rightarrow> run p (x # xs) pos caps)
          else run p (x # xs) pos caps)"
| "run (StarLazy k # p) s pos caps =
     (case run p s pos caps of
        Some r \<Rightarrow> Some r
      | None \<Rightarrow>
         (case s of [] \<Rightarrow> None
          | x # xs \<Rightarrow>
              if cls_matches k x then run (StarLazy k # p) xs (Suc pos) caps else None))"
| "run (Plus k # p) s pos caps =
     (case s of [] \<Rightarrow> None
      | x # xs \<Rightarrow> if cls_matches k x then run (Star k # p) xs (Suc pos) caps else None)"

text \<open>The search for the leftmost start position, the end of the subject included.\<close>

fun search :: "inst list \<Rightarrow> string \<Rightarrow> nat \<Rightarrow> (nat \<times> nat list \<times> nat) option" where
  "search p s pos =
     (case run p s pos [] of
        Some (caps, e) \<Rightarrow> Some (pos, caps, e)
      | None \<Rightarrow> (case s of [] \<Rightarrow> None | x # xs \<Rightarrow> search p xs (Suc pos)))"

text \<open>\<^verbatim>\<open>s[b:e]\<close>, and the submatches cut out of the subject, pair by pair.\<close>

definition slice :: "string \<Rightarrow> nat \<Rightarrow> nat \<Rightarrow> string" where
  "slice s b e = take (e - b) (drop b s)"

fun submatches :: "string \<Rightarrow> nat list \<Rightarrow> string list" where
  "submatches s (b # e # caps) = slice s b e # submatches s caps"
| "submatches s caps = []"

text \<open>
  \<^verbatim>\<open>FindStringSubmatch\<close>: the whole match followed by the text of each group, or
  nil (the empty slice) when nothing matches.
\<close>

definition FindStringSubmatch :: "inst list \<Rightarrow> string \<Rightarrow> string list" where
  "FindStringSubmatch p s =
     (case search p s 0 of
        None \<Rightarrow> []
      | Some (b, caps, e) \<Rightarrow> slice s b e # submatches s caps)"

definition reGroup :: "inst list" where
  "reGroup = [Lit CHR ''/'', CapOpen, StarLazy AnyCharNotNL, CapClose, Lit CHR ''/'']"

definition reSwarm :: "inst list" where
  "reSwarm =
     [CapOpen, Star AnyCharNotNL, CapClose, Lit CHR ''.'',
      CapOpen, Plus Digit, CapClose, Lit CHR ''.'',
      CapOpen, Star AnyCharNotNL, CapClose]"

text \<open>
  The two character classes as predicates, and the part of \<open>reSwarm\<close> after its first
  group.
\<close>

definition digit :: "char \<Rightarrow> bool" where
  "digit c \<longleftrightarrow> c \<in> set ''0123456789''"

definition not_nl :: "char \<Rightarrow> bool" where
  "not_nl c \<longleftrightarrow> c \<noteq> CHR 0x0A"

definition reSwarmTail :: "inst list" where
  "reSwarmTail = [Lit CHR ''.'', CapOpen, Plus Digit, CapClose, Lit CHR ''.'',
      CapOpen, Star AnyCharNotNL, CapClose]"

text \<open>The characters a segment between two slashes is made of.\<close>

definition seg_char :: "char \<Rightarrow> bool" where
  "seg_char c \<longleftrightarrow> c \<noteq> CHR ''/'' \<and> c \<noteq> CHR 0x0A"

subsection \<open>Name and group resolution\<close>

text \<open>\<^verbatim>\<open>strings.TrimPrefix(s, "/")\<close> and \<^verbatim>\<open>strings.Join(result, "-")\<close>.\<close>

definition TrimPrefix :: "string \<Rightarrow> string \<Rightarrow> string" where
  "TrimPrefix s pre = (if take (length pre) s = pre then drop (length pre) s else s)"

fun Join :: "string list \<Rightarrow> string \<Rightarrow> string" where
  "Join [] sep = []"
| "Join [a] sep = a"
| "Join (a # b # r) sep = a @ sep @ Join (b # r) sep"

definition group :: "string \<Rightarrow> string" where
  "group img =
     (let r = FindStringSubmatch reGroup img
      in if length r = 2 then r ! 1 else [])"

definition buildContainerName :: "labels \<Rightarrow> string \<Rightarrow> string" where
  "buildContainerName lbls containerName =
     (let r = FindStringSubmatch reSwarm containerName;
          result =
            (if length r = 4 then [] @ [r ! 1] @ [r ! 2]
             else (case lbls ''logger.container.name'' of
                     Some labelName \<Rightarrow> if labelName \<noteq> [] then [] @ [labelName] else []
                   | None \<Rightarrow> []))
      in if length result > 0 then Join result ''-'' else containerName)"

definition buildGroupName :: "labels \<Rightarrow> string \<Rightarrow> string" where
  "buildGroupName lbls defaultValue =
     (case lbls ''logger.group.name'' of
        Some labelGroup \<Rightarrow> if labelGroup \<noteq> [] then labelGroup else defaultValue
      | None \<Rightarrow> defaultValue)"

subsection \<open>Times, events and the records of the Docker client\<close>

type_synonym int64 = "64 word"

text \<open>
  Go's \<^verbatim>\<open>/\<close> on \<^verbatim>\<open>int64\<close> truncates towards zero (and wraps for the one
  overflowing quotient); the divisors of this package are the non-zero constants 1000 and
  1e9.
\<close>

definition quo :: "int64 \<Rightarrow> int64 \<Rightarrow> int64" where
  "quo a b = word_of_int (sint a sdiv sint b)"

text \<open>
  A \<^verbatim>\<open>time.Time\<close> as the instant it denotes: seconds since the epoch and
  nanoseconds within the second. \<^verbatim>\<open>time.Unix(sec, nsec)\<close> brings a nanosecond
  argument outside \<open>[0, 1e9)\<close> into that range.
\<close>

record Time =
  sec :: int64
  nsec :: int64

definition Unix :: "int64 \<Rightarrow> int64 \<Rightarrow> Time" where
  "Unix s ns =
     (if sint ns < 0 \<or> sint ns \<ge> 1000000000 then
        (let n = quo ns 1000000000;
             s1 = s + n;
             ns1 = ns - n * 1000000000
         in if sint ns1 < 0 then \<lparr>sec = s1 - 1, nsec = ns1 + 1000000000\<rparr>
            else \<lparr>sec = s1, nsec = ns1\<rparr>)
      else \<lparr>sec = s, nsec = ns\<rparr>)"

record Event =
  ContainerID :: string
  ContainerName :: string
  Group :: string
  TS :: Time
  Status :: bool

text \<open>
  The fields this package reads of \<^verbatim>\<open>docker.APIContainers\<close>, of
  \<^verbatim>\<open>docker.APIActor\<close> and of \<^verbatim>\<open>docker.APIEvents\<close> (the latter two with the
  prefixes \<open>Actor\<close> and \<open>Ev\<close>, since \<open>ID\<close> and \<open>Status\<close> are taken).
\<close>

record APIContainers =
  ID :: string
  Image :: string
  Created :: int64
  Names :: "string list"
  Labels :: labels

record APIActor =
  ActorID :: string
  Attributes :: labels

record APIEvents =
  EvStatus :: string
  EvFrom :: string
  EvType :: string
  EvActor :: APIActor
  EvTime :: int64
  EvTimeNano :: int64

subsection \<open>Errors, outcomes and effects\<close>

text \<open>
  An \<^verbatim>\<open>error\<close> is a message, possibly wrapped by \<^verbatim>\<open>errors.Wrap(err, msg)\<close>.
  A call either returns, or panics (an index out of range), or blocks for ever (a send on
  the full channel that nobody can read yet).
\<close>

datatype err = Err string | Wrap err string

datatype 'a outcome = Return 'a | Panic | Blocked

text \<open>
  The effects of construction, in the order they happen: the call of
  \<^verbatim>\<open>ListContainers\<close>, each send on \<^verbatim>\<open>eventsCh\<close>, and the \<^verbatim>\<open>go\<close> statement
  that starts \<^verbatim>\<open>activate\<close>. The state is the buffer of \<^verbatim>\<open>eventsCh\<close> (made with
  capacity 100) and the effects so far.
\<close>

datatype effect = CallListContainers | ChanSend Event | GoActivate

record state =
  eventsCh :: "Event list"
  trace :: "effect list"

definition init :: state where
  "init = \<lparr>eventsCh = [], trace = []\<rparr>"

definition capacity :: nat where
  "capacity = 100"

text \<open>
  \<^verbatim>\<open>e.eventsCh <- event\<close> while no receiver exists (the notifier has not been
  returned yet): it appends to the buffer, or blocks for ever when the buffer is full.
\<close>

definition send :: "Event \<Rightarrow> state \<Rightarrow> state option" where
  "send event st =
     (if length (eventsCh st) < capacity
      then Some (st\<lparr>eventsCh := eventsCh st @ [event], trace := trace st @ [ChanSend event]\<rparr>)
      else None)"

text \<open>
  The client, as what its methods return: \<^verbatim>\<open>ListContainers\<close> gives an error or the
  running containers; \<^verbatim>\<open>AddEventListener\<close> gives an error or nil.
\<close>

record DockerClient =
  ListContainers :: "err + APIContainers list"
  AddEventListener :: "err option"

subsection \<open>The snapshot of the running containers\<close>

text \<open>The loop of \<^verbatim>\<open>emitRunningContainers\<close> over the listed containers.\<close>

fun emitLoop :: "EventNotif \<Rightarrow> APIContainers list \<Rightarrow> state \<Rightarrow> unit outcome \<times> state" where
  "emitLoop e [] st = (Return (), st)"
| "emitLoop e (c # cs) st =
     (case Names c of
        [] \<Rightarrow> (Panic, st)
      | name0 # _ \<Rightarrow>
          (let containerName = buildContainerName (Labels c) (TrimPrefix name0 ''/'');
               groupName = buildGroupName (Labels c) (group (Image c))
           in if \<not> isAllowed e containerName then emitLoop e cs st
              else
                (let event = \<lparr>ContainerID = ID c, ContainerName = containerName,
                               Group = groupName, TS = Unix (quo (Created c) 1000) 0,
                               Status = True\<rparr>
                 in case send event st of
                      None \<Rightarrow> (Blocked, st)
                    | Some st' \<Rightarrow> emitLoop e cs st')))"

definition emitRunningContainers ::
  "EventNotif \<Rightarrow> DockerClient \<Rightarrow> state \<Rightarrow> err option outcome \<times> state" where
  "emitRunningContainers e dockerClient st =
     (let st1 = st\<lparr>trace := trace st @ [CallListContainers]\<rparr>
      in case ListContainers dockerClient of
           Inl er \<Rightarrow> (Return (Some (Wrap er ''can't list containers'')), st1)
         | Inr containers \<Rightarrow>
             (case emitLoop e containers st1 of
                (Return _, st2) \<Rightarrow> (Return None, st2)
              | (Panic, st2) \<Rightarrow> (Panic, st2)
              | (Blocked, st2) \<Rightarrow> (Blocked, st2)))"

subsection \<open>Construction\<close>

text \<open>
  \<^verbatim>\<open>regexp.Compile\<close> belongs to the regular expression library and is a parameter:
  it gives an error or the compiled expression. It is called only for a non-empty pattern.
\<close>

definition compileOpt :: "(string \<Rightarrow> err + Regexp) \<Rightarrow> string \<Rightarrow> err + Regexp option" where
  "compileOpt Compile pat =
     (if pat \<noteq> [] then
        (case Compile pat of Inl er \<Rightarrow> Inl er | Inr re \<Rightarrow> Inr (Some re))
      else Inr None)"

definition NewEventNotif ::
  "(string \<Rightarrow> err + Regexp) \<Rightarrow> DockerClient \<Rightarrow> string list \<Rightarrow> string list \<Rightarrow> string \<Rightarrow> string
     \<Rightarrow> (err + EventNotif) outcome \<times> state" where
  "NewEventNotif Compile dockerClient excl incl includesPattern excludesPattern =
     (case compileOpt Compile includesPattern of
        Inl er \<Rightarrow> (Return (Inl (Wrap er ''failed to compile includesPattern'')), init)
      | Inr includesRe \<Rightarrow>
         (case compileOpt Compile excludesPattern of
            Inl er \<Rightarrow> (Return (Inl (Wrap er ''failed to compile excludesPattern'')), init)
          | Inr excludesRe \<Rightarrow>
              (let res = \<lparr>excludes = excl, includes' = incl,
                          includesRegexp = includesRe, excludesRegexp = excludesRe\<rparr>
               in case emitRunningContainers res dockerClient init of
                    (Return (Some er), st) \<Rightarrow>
                      (Return (Inl (Wrap er ''failed to emit containers'')), st)
                  | (Return None, st) \<Rightarrow>
                      (Return (Inr res), st\<lparr>trace := trace st @ [GoActivate]\<rparr>)
                  | (Panic, st) \<Rightarrow> (Panic, st)
                  | (Blocked, st) \<Rightarrow> (Blocked, st))))"

subsection \<open>The live listener\<close>

text \<open>
  The body of the loop of \<^verbatim>\<open>activate\<close> for one raw event: the event it sends on
  \<^verbatim>\<open>eventsCh\<close>, or \<^const>\<open>None\<close> where the body reaches \<^verbatim>\<open>continue\<close>.
\<close>

definition upStatuses :: "string list" where
  "upStatuses = [''start'', ''restart'']"

definition downStatuses :: "string list" where
  "downStatuses = [''die'', ''destroy'', ''stop'', ''pause'']"

definition activateEvent :: "EventNotif \<Rightarrow> APIEvents \<Rightarrow> Event option" where
  "activateEvent e dockerEvent =
     (if EvType dockerEvent \<noteq> ''container'' then None
      else if \<not> contains (EvStatus dockerEvent) upStatuses
              \<and> \<not> contains (EvStatus dockerEvent) downStatuses then None
      else
        (let attrs = Attributes (EvActor dockerEvent);
             containerName =
               buildContainerName attrs (TrimPrefix (index_map attrs ''name'') ''/'');
             groupName = buildGroupName attrs (group (EvFrom dockerEvent))
         in if \<not> isAllowed e containerName then None
            else Some \<lparr>ContainerID = ActorID (EvActor dockerEvent),
                       ContainerName = containerName,
                       Group = groupName,
                       TS = Unix (quo (EvTime dockerEvent) 1000) (EvTimeNano dockerEvent),
                       Status = contains (EvStatus dockerEvent) upStatuses\<rparr>))"

subsection \<open>The names of the specification for the errors of construction\<close>

text \<open>
  The code returns wrapped errors; the specification calls a failure to compile a pattern
  a \<open>ConfigError\<close> and a failure to list the containers a \<open>CollectorError\<close>. They are
  told apart by the messages the code wraps them with.
\<close>

fun ConfigError :: "err \<Rightarrow> bool" where
  "ConfigError (Wrap er msg) =
     (msg = ''failed to compile includesPattern'' \<or> msg = ''failed to compile excludesPattern'')"
| "ConfigError (Err msg) = False"

fun CollectorError :: "err \<Rightarrow> bool" where
  "CollectorError (Wrap (Wrap er msg1) msg2) =
     (msg1 = ''can't list containers'' \<and> msg2 = ''failed to emit containers'')"
| "CollectorError (Wrap (Err m) msg2) = False"
| "CollectorError (Err msg) = False"

subsection \<open>The listener and the consumer after construction\<close>

text \<open>
  After \<^verbatim>\<open>NewEventNotif\<close> has returned, the goroutine running \<^verbatim>\<open>activate\<close> and the
  consumer of \<^verbatim>\<open>Channel()\<close> run concurrently; they meet only at \<^verbatim>\<open>eventsCh\<close>. The
  system is the buffer of the channel, the raw events the feed will still deliver before
  it is closed, the state of the listener, and two histories: every event written to the
  channel so far and every event the consumer has received so far.

  A step is one of: \<^verbatim>\<open>AddEventListener\<close> returns nil, or returns an error and
  \<^verbatim>\<open>log.Fatalf\<close> ends the process; the listener takes the next raw event and the body
  of its loop reaches \<^verbatim>\<open>continue\<close>; the listener takes the next raw event and sends
  the event made from it, which needs room in the buffer; the feed is closed and
  \<^verbatim>\<open>log.Fatalf\<close> ends the process; the consumer receives the oldest event of the
  buffer.
\<close>

datatype listener = NotSubscribed | Listening | Exited

record sys =
  chan :: "Event list"
  feed :: "APIEvents list"
  lstate :: listener
  written :: "Event list"
  delivered :: "Event list"

inductive step :: "EventNotif \<Rightarrow> DockerClient \<Rightarrow> sys \<Rightarrow> sys \<Rightarrow> bool"
  for e :: EventNotif and client :: DockerClient where
  subscribe:
    "lstate s = NotSubscribed \<Longrightarrow> AddEventListener client = None \<Longrightarrow>
     step e client s (s\<lparr>lstate := Listening\<rparr>)"
| subscribe_failed:
    "lstate s = NotSubscribed \<Longrightarrow> AddEventListener client = Some er \<Longrightarrow>
     step e client s (s\<lparr>lstate := Exited\<rparr>)"
| skip:
    "lstate s = Listening \<Longrightarrow> feed s = dockerEvent # rest \<Longrightarrow>
     activateEvent e dockerEvent = None \<Longrightarrow>
     step e client s (s\<lparr>feed := rest\<rparr>)"
| emit:
    "lstate s = Listening \<Longrightarrow> feed s = dockerEvent # rest \<Longrightarrow>
     activateEvent e dockerEvent = Some event \<Longrightarrow> length (chan s) < capacity \<Longrightarrow>
     step e client s (s\<lparr>feed := rest, chan := chan s @ [event], written := written s @ [event]\<rparr>)"
| closed:
    "lstate s = Listening \<Longrightarrow> feed s = [] \<Longrightarrow>
     step e client s (s\<lparr>lstate := Exited\<rparr>)"
| receive:
    "lstate s \<noteq> Exited \<Longrightarrow> chan s = event # rest \<Longrightarrow>
     step e client s (s\<lparr>chan := rest, delivered := delivered s @ [event]\<rparr>)"

text \<open>
  The system at the \<^verbatim>\<open>go\<close> statement: the buffer holds what construction has sent,
  and nothing has been received.
\<close>

definition started :: "state \<Rightarrow> APIEvents list \<Rightarrow> sys" where
  "started st raw =
     \<lparr>chan = eventsCh st, feed = raw, lstate = NotSubscribed,
      written = eventsCh st, delivered = []\<rparr>"

text \<open>The events the listener makes of a sequence of raw events, in order.\<close>

fun liveEvents :: "EventNotif \<Rightarrow> APIEvents list \<Rightarrow> Event list" where
  "liveEvents e [] = []"
| "liveEvents e (dockerEvent # rest) =
     (case activateEvent e dockerEvent of
        None \<Rightarrow> liveEvents e rest
      | Some event \<Rightarrow> event # liveEvents e rest)"

text \<open>
  The resolved name of a listed container and the event the snapshot makes of it, as
  the loop of \<^verbatim>\<open>emitRunningContainers\<close> computes them for a container with a name.
\<close>

definition snapshotName :: "APIContainers \<Rightarrow> string" where
  "snapshotName c = buildContainerName (Labels c) (TrimPrefix (hd (Names c)) ''/'')"

definition snapshotEvent :: "APIContainers \<Rightarrow> Event" where
  "snapshotEvent c =
     \<lparr>ContainerID = ID c, ContainerName = snapshotName c,
      Group = buildGroupName (Labels c) (group (Image c)),
      TS = Unix (quo (Created c) 1000) 0, Status = True\<rparr>"

subsection \<open>Example values\<close>

text \<open>
  A policy made of the two lists only, and a raw event of a container named \<open>name\<close>
  started from image \<open>from\<close>.
\<close>

definition listPolicy :: "string list \<Rightarrow> string list \<Rightarrow> EventNotif" where
  "listPolicy excl incl =
     \<lparr>excludes = excl, includes' = incl, includesRegexp = None, excludesRegexp = None\<rparr>"

definition rawEvent :: "string \<Rightarrow> string \<Rightarrow> string \<Rightarrow> string \<Rightarrow> APIEvents" where
  "rawEvent ty status name from =
     \<lparr>EvStatus = status, EvFrom = from, EvType = ty,
      EvActor = \<lparr>ActorID = ''c1'', Attributes = [''name'' \<mapsto> name]\<rparr>,
      EvTime = 0, EvTimeNano = 0\<rparr>"

definition exampleContainer :: "string \<Rightarrow> string \<Rightarrow> string \<Rightarrow> int64 \<Rightarrow> APIContainers" where
  "exampleContainer i name img t =
     \<lparr>ID = i, Image = img, Created = t, Names = [name], Labels = Map.empty\<rparr>"

definition listing :: "APIContainers list \<Rightarrow> DockerClient" where
  "listing cs = \<lparr>ListContainers = Inr cs, AddEventListener = None\<rparr>"

definition unreachable :: DockerClient where
  "unreachable = \<lparr>ListContainers = Inl (Err ''connection refused''), AddEventListener = None\<rparr>"

text \<open>
  A stand-in for \<^verbatim>\<open>regexp.Compile\<close> in the examples: it rejects the pattern \<open>(\<close>, as
  the library does, and compiles any other pattern to an expression matching exactly the
  pattern itself.
\<close>

definition exampleCompile :: "string \<Rightarrow> err + Regexp" where
  "exampleCompile pat =
     (if pat = ''('' then Inl (Err ''missing closing )'') else Inr (Regexp (\<lambda>s. s = pat)))"

section \<open>Properties\<close>

subsection \<open>The inclusion policy\<close>

lemma contains_iff: "contains e s \<longleftrightarrow> e \<in> set s"
  by (induction s) auto

text \<open>
  C1. The inclusion policy is a five-step ladder in which the first applicable step
  decides: a configured include pattern decides alone by matching; otherwise a configured
  exclude pattern decides by the negation of matching; otherwise a non-empty include list
  decides by literal membership; otherwise a name in the exclude list is refused;
  otherwise the name is allowed. In particular a name that matches the include pattern is
  allowed although it is in the exclude list.
\<close>

theorem isAllowed_ladder:
  "(includesRegexp e = Some ire \<longrightarrow> isAllowed e name = MatchString ire name)
   \<and> (includesRegexp e = None \<and> excludesRegexp e = Some ere \<longrightarrow>
        isAllowed e name = (\<not> MatchString ere name))
   \<and> (includesRegexp e = None \<and> excludesRegexp e = None \<and> includes' e \<noteq> [] \<longrightarrow>
        isAllowed e name = (name \<in> set (includes' e)))
   \<and> (includesRegexp e = None \<and> excludesRegexp e = None \<and> includes' e = []
        \<and> name \<in> set (excludes e) \<longrightarrow> isAllowed e name = False)
   \<and> (includesRegexp e = None \<and> excludesRegexp e = None \<and> includes' e = []
        \<and> name \<notin> set (excludes e) \<longrightarrow> isAllowed e name = True)
   \<and> (includesRegexp e = Some ire \<and> MatchString ire name \<and> name \<in> set (excludes e) \<longrightarrow>
        isAllowed e name)"
  by (simp add: isAllowed_def contains_iff)

theorem isAllowed_ladder_witness:
  "isAllowed \<lparr>excludes = [''web''], includes' = [],
      includesRegexp = Some (Regexp (\<lambda>s. s = ''web'')), excludesRegexp = None\<rparr> ''web''
   \<and> \<not> isAllowed \<lparr>excludes = [], includes' = [''web''], includesRegexp = None,
      excludesRegexp = Some (Regexp (\<lambda>s. s = ''web''))\<rparr> ''web''
   \<and> isAllowed (listPolicy [''web''] [''web'', ''api'']) ''web''
   \<and> \<not> isAllowed (listPolicy [''worker''] []) ''worker''
   \<and> isAllowed (listPolicy [''worker''] []) ''api''"
  using
    isAllowed_ladder [of "\<lparr>excludes = [''web''], includes' = [],
      includesRegexp = Some (Regexp (\<lambda>s. s = ''web'')), excludesRegexp = None\<rparr>"
      "Regexp (\<lambda>s. s = ''web'')" "''web''"]
    isAllowed_ladder [of "\<lparr>excludes = [], includes' = [''web''], includesRegexp = None,
      excludesRegexp = Some (Regexp (\<lambda>s. s = ''web''))\<rparr>" _ "''web''"
      "Regexp (\<lambda>s. s = ''web'')"]
    isAllowed_ladder [of "listPolicy [''web''] [''web'', ''api'']" _ "''web''"]
    isAllowed_ladder [of "listPolicy [''worker''] []" _ "''worker''"]
    isAllowed_ladder [of "listPolicy [''worker''] []" _ "''api''"]
  by (simp add: listPolicy_def)

subsection \<open>The live listener on one raw event\<close>

lemma status_sets:
  "contains s upStatuses \<longleftrightarrow> s \<in> {''start'', ''restart''}"
  "contains s downStatuses \<longleftrightarrow> s \<in> {''die'', ''destroy'', ''stop'', ''pause''}"
  by (auto simp: upStatuses_def downStatuses_def)

lemma group_worker: "group ''group/worker:v1'' = []"
  by (simp add: group_def FindStringSubmatch_def reGroup_def)

lemma name_no_dot:
  "buildContainerName lbls ''worker'' =
     (case lbls ''logger.container.name'' of
        Some labelName \<Rightarrow> if labelName \<noteq> [] then labelName else ''worker''
      | None \<Rightarrow> ''worker'')"
  "buildContainerName lbls ''db'' =
     (case lbls ''logger.container.name'' of
        Some labelName \<Rightarrow> if labelName \<noteq> [] then labelName else ''db''
      | None \<Rightarrow> ''db'')"
  by (simp_all add: buildContainerName_def FindStringSubmatch_def reSwarm_def
      split: option.splits)

text \<open>
  C4. For one raw event the listener sends nothing when the object type is not
  \<open>container\<close> (so nothing for \<open>network\<close>, whatever the status), nothing when the
  status is neither an up-transition (start, restart) nor a down-transition (die,
  destroy, stop, pause), and nothing when the resolved name is refused by the policy;
  otherwise it sends exactly one event, which carries the resolved name and whose status
  is true exactly for an up-transition.
\<close>

theorem activateEvent_filter:
  "(EvType ev \<noteq> ''container'' \<longrightarrow> activateEvent e ev = None)
   \<and> (EvType ev = ''network'' \<longrightarrow> activateEvent e ev = None)
   \<and> (EvStatus ev \<notin> {''start'', ''restart''} \<union> {''die'', ''destroy'', ''stop'', ''pause''} \<longrightarrow>
        activateEvent e ev = None)
   \<and> (EvType ev = ''container''
        \<and> EvStatus ev \<in> {''start'', ''restart''} \<union> {''die'', ''destroy'', ''stop'', ''pause''}
        \<and> isAllowed e (buildContainerName (Attributes (EvActor ev))
              (TrimPrefix (index_map (Attributes (EvActor ev)) ''name'') ''/'')) \<longrightarrow>
        (\<exists>x. activateEvent e ev = Some x
           \<and> ContainerName x = buildContainerName (Attributes (EvActor ev))
                (TrimPrefix (index_map (Attributes (EvActor ev)) ''name'') ''/'')
           \<and> Status x = (EvStatus ev \<in> {''start'', ''restart''})))
   \<and> (\<not> isAllowed e (buildContainerName (Attributes (EvActor ev))
              (TrimPrefix (index_map (Attributes (EvActor ev)) ''name'') ''/'')) \<longrightarrow>
        activateEvent e ev = None)"
  by (simp add: activateEvent_def status_sets Let_def)

theorem activateEvent_filter_witness:
  "activateEvent (listPolicy [''db''] []) (rawEvent ''network'' ''start'' ''/worker'' ''a/b/c'') = None
   \<and> activateEvent (listPolicy [''db''] [])
        (rawEvent ''container'' ''exec_start'' ''/worker'' ''a/b/c'') = None
   \<and> activateEvent (listPolicy [''db''] []) (rawEvent ''container'' ''start'' ''/db'' ''a/b/c'') = None
   \<and> map_option Status (activateEvent (listPolicy [''db''] [])
        (rawEvent ''container'' ''restart'' ''/worker'' ''a/b/c'')) = Some True
   \<and> map_option Status (activateEvent (listPolicy [''db''] [])
        (rawEvent ''container'' ''die'' ''/worker'' ''a/b/c'')) = Some False"
proof -
  let ?e = "listPolicy [''db''] []"
  have 1: "activateEvent ?e (rawEvent ''network'' ''start'' ''/worker'' ''a/b/c'') = None"
    using activateEvent_filter [of "rawEvent ''network'' ''start'' ''/worker'' ''a/b/c''" ?e]
    by (simp add: rawEvent_def)
  have 2: "activateEvent ?e (rawEvent ''container'' ''exec_start'' ''/worker'' ''a/b/c'') = None"
    using activateEvent_filter [of "rawEvent ''container'' ''exec_start'' ''/worker'' ''a/b/c''" ?e]
    by (simp add: rawEvent_def)
  have 3: "activateEvent ?e (rawEvent ''container'' ''start'' ''/db'' ''a/b/c'') = None"
    using activateEvent_filter [of "rawEvent ''container'' ''start'' ''/db'' ''a/b/c''" ?e]
    by (simp add: rawEvent_def listPolicy_def index_map_def TrimPrefix_def name_no_dot
        isAllowed_def)
  have 4: "map_option Status (activateEvent ?e
      (rawEvent ''container'' ''restart'' ''/worker'' ''a/b/c'')) = Some True"
    using activateEvent_filter [of "rawEvent ''container'' ''restart'' ''/worker'' ''a/b/c''" ?e]
    by (auto simp add: rawEvent_def listPolicy_def index_map_def TrimPrefix_def name_no_dot
        isAllowed_def)
  have 5: "map_option Status (activateEvent ?e
      (rawEvent ''container'' ''die'' ''/worker'' ''a/b/c'')) = Some False"
    using activateEvent_filter [of "rawEvent ''container'' ''die'' ''/worker'' ''a/b/c''" ?e]
    by (auto simp add: rawEvent_def listPolicy_def index_map_def TrimPrefix_def name_no_dot
        isAllowed_def)
  show ?thesis using 1 2 3 4 5 by blast
qed

text \<open>
  C5. The raw event of object type \<open>container\<close> with status \<open>stop\<close>, actor attribute
  name \<open>/worker\<close> and image \<open>group/worker:v1\<close>, under a policy without restrictions,
  makes the listener send an event with container name \<open>worker\<close> and status false. Its
  group is the empty string: the image has a single slash, and the group pattern needs
  a segment between two slashes.
\<close>

theorem activate_stop_worker:
  "activateEvent (listPolicy [] [])
     \<lparr>EvStatus = ''stop'', EvFrom = ''group/worker:v1'', EvType = ''container'',
      EvActor = \<lparr>ActorID = aid, Attributes = [''name'' \<mapsto> ''/worker'']\<rparr>,
      EvTime = t, EvTimeNano = tn\<rparr>
   = Some \<lparr>ContainerID = aid, ContainerName = ''worker'', Group = [],
           TS = Unix (quo t 1000) tn, Status = False\<rparr>"
  by (simp add: activateEvent_def status_sets Let_def group_worker name_no_dot
      TrimPrefix_def index_map_def buildGroupName_def isAllowed_def listPolicy_def)

text \<open>The group of that event is not \<open>group\<close>.\<close>

theorem activate_stop_worker_counterexample:
  "map_option Group
     (activateEvent (listPolicy [] [])
        (rawEvent ''container'' ''stop'' ''/worker'' ''group/worker:v1''))
   \<noteq> Some ''group''"
  by (simp add: activateEvent_def status_sets Let_def group_worker name_no_dot rawEvent_def
      TrimPrefix_def index_map_def buildGroupName_def isAllowed_def listPolicy_def)

subsection \<open>The group pattern\<close>

lemma lazy_stop:
  "run [StarLazy AnyCharNotNL, CapClose, Lit CHR ''/''] (CHR ''/'' # xs) pos caps
     = Some (caps @ [pos], Suc pos)"
  by simp

lemma lazy_nl:
  "run [StarLazy AnyCharNotNL, CapClose, Lit CHR ''/''] (CHR 0x0A # xs) pos caps = None"
  by simp

lemma lazy_nil:
  "run [StarLazy AnyCharNotNL, CapClose, Lit CHR ''/''] [] pos caps = None"
  by simp

lemma lazy_step:
  "seg_char x \<Longrightarrow>
   run [StarLazy AnyCharNotNL, CapClose, Lit CHR ''/''] (x # xs) pos caps
     = run [StarLazy AnyCharNotNL, CapClose, Lit CHR ''/''] xs (Suc pos) caps"
  by (simp add: seg_char_def)

lemma run_lazy_seg:
  "run [StarLazy AnyCharNotNL, CapClose, Lit CHR ''/''] s pos caps =
     (case dropWhile seg_char s of
        [] \<Rightarrow> None
      | y # _ \<Rightarrow> if y = CHR ''/''
                 then Some (caps @ [pos + length (takeWhile seg_char s)],
                            Suc (pos + length (takeWhile seg_char s)))
                 else None)"
proof (induction s arbitrary: pos)
  case Nil
  show ?case by simp
next
  case (Cons x xs)
  consider "x = CHR ''/''" | "x = CHR 0x0A" | "seg_char x"
    by (auto simp: seg_char_def)
  then show ?case
  proof cases
    case 1
    then show ?thesis by (simp only: lazy_stop) (simp add: seg_char_def)
  next
    case 2
    then show ?thesis by (simp only: lazy_nl) (simp add: seg_char_def)
  next
    case 3
    then have tw: "takeWhile seg_char (x # xs) = x # takeWhile seg_char xs"
      and dw: "dropWhile seg_char (x # xs) = dropWhile seg_char xs" by simp_all
    show ?thesis
      by (simp only: lazy_step [OF 3] Cons.IH tw dw)
         (cases "dropWhile seg_char xs"; simp del: dropWhile_eq_Nil_conv)
  qed
qed

lemma run_reGroup:
  "run reGroup (x # xs) pos [] =
          (if x = CHR ''/'' then
            (case dropWhile seg_char xs of
               [] \<Rightarrow> None
             | y # _ \<Rightarrow> if y = CHR ''/''
                 then Some ([Suc pos, Suc pos + length (takeWhile seg_char xs)],
                            Suc (Suc pos + length (takeWhile seg_char xs)))
                 else None)
          else None)"
proof -
  have "run reGroup (x # xs) pos [] =
     (if x = CHR ''/'' then run [StarLazy AnyCharNotNL, CapClose, Lit CHR ''/''] xs (Suc pos) [Suc pos] else None)"
    unfolding reGroup_def by (simp del: run.simps(6) add: run.simps(2,3))
  then show ?thesis
    by (simp only: run_lazy_seg) (cases "dropWhile seg_char xs"; simp del: dropWhile_eq_Nil_conv)
qed

lemma run_reGroup_Nil: "run reGroup [] pos [] = None"
  by (simp add: reGroup_def)

declare search.simps [simp del]

lemma search_reGroup_skip:
  "CHR ''/'' \<notin> set r \<Longrightarrow> search reGroup (r @ CHR ''/'' # u) pos = search reGroup (CHR ''/'' # u) (pos + length r)"
proof (induction r arbitrary: pos)
  case Nil
  show ?case by simp
next
  case (Cons x xs)
  then have "x \<noteq> CHR ''/''" by auto
  then have "run reGroup (x # xs @ CHR ''/'' # u) pos [] = None"
    by (simp only: run_reGroup if_False)
  moreover have "search reGroup ((x # xs) @ CHR ''/'' # u) pos =
     (case run reGroup (x # xs @ CHR ''/'' # u) pos [] of
        Some (caps, e) \<Rightarrow> Some (pos, caps, e)
      | None \<Rightarrow> search reGroup (xs @ CHR ''/'' # u) (Suc pos))"
    by (subst search.simps) (simp split: option.split)
  ultimately show ?case using Cons by simp
qed

lemma group_segment:
  assumes "CHR ''/'' \<notin> set registry" "CHR ''/'' \<notin> set g" "CHR 0x0A \<notin> set g"
  shows "group (registry @ ''/'' @ g @ ''/'' @ rest) = g"
proof -
  have sc: "\<forall>c\<in>set g. seg_char c" using assms by (auto simp: seg_char_def)
  have tw: "takeWhile seg_char (g @ CHR ''/'' # rest) = g"
    using sc by (simp add: takeWhile_append2 seg_char_def)
  have dw: "dropWhile seg_char (g @ CHR ''/'' # rest) = CHR ''/'' # rest"
    using sc by (simp add: dropWhile_append2 seg_char_def)
  have "run reGroup (CHR ''/'' # g @ CHR ''/'' # rest) (length registry) [] =
     Some ([Suc (length registry), Suc (length registry) + length g], Suc (Suc (length registry) + length g))"
    by (simp only: run_reGroup tw dw) simp
  then have "search reGroup (CHR ''/'' # g @ CHR ''/'' # rest) (length registry) =
     Some (length registry, [Suc (length registry), Suc (length registry) + length g], Suc (Suc (length registry) + length g))"
    by (subst search.simps) simp
  then have "search reGroup (registry @ CHR ''/'' # g @ CHR ''/'' # rest) 0 =
     Some (length registry, [Suc (length registry), Suc (length registry) + length g], Suc (Suc (length registry) + length g))"
    using search_reGroup_skip [OF assms(1), of "g @ CHR ''/'' # rest" 0] by simp
  then show ?thesis
    by (simp add: group_def FindStringSubmatch_def slice_def)
qed

lemma run_reGroup_Some:
  assumes "run reGroup s pos [] = Some (caps, e)"
  shows "\<exists>g rest. s = CHR ''/'' # g @ CHR ''/'' # rest \<and> (\<forall>c\<in>set g. seg_char c)
           \<and> caps = [Suc pos, Suc pos + length g] \<and> e = Suc (Suc pos + length g)"
proof (cases s)
  case Nil
  then show ?thesis using assms by (simp add: run_reGroup_Nil)
next
  case (Cons x xs)
  from assms have x: "x = CHR ''/''"
    unfolding Cons run_reGroup by (simp split: if_splits)
  from assms obtain ys where dw: "dropWhile seg_char xs = CHR ''/'' # ys"
    and c: "caps = [Suc pos, Suc pos + length (takeWhile seg_char xs)]"
    and e: "e = Suc (Suc pos + length (takeWhile seg_char xs))"
    unfolding Cons run_reGroup x
    by (cases "dropWhile seg_char xs") (auto simp del: dropWhile_eq_Nil_conv split: if_splits)
  have "xs = takeWhile seg_char xs @ CHR ''/'' # ys"
    using takeWhile_dropWhile_id [of seg_char xs] dw by simp
  moreover have "\<forall>c\<in>set (takeWhile seg_char xs). seg_char c"
    by (auto dest: set_takeWhileD)
  ultimately show ?thesis using Cons x c e by blast
qed

lemma search_reGroup_Some:
  "search reGroup s pos = Some (b, caps, e) \<Longrightarrow>
   \<exists>r g rest. s = r @ CHR ''/'' # g @ CHR ''/'' # rest \<and> (\<forall>c\<in>set g. seg_char c)
      \<and> b = pos + length r
      \<and> caps = [Suc b, Suc b + length g] \<and> e = Suc (Suc b + length g)"
proof (induction s arbitrary: pos)
  case Nil
  then show ?case by (subst (asm) search.simps) (simp add: run_reGroup_Nil)
next
  case (Cons x xs)
  show ?case
  proof (cases "run reGroup (x # xs) pos []")
    case None
    with Cons.prems have "search reGroup xs (Suc pos) = Some (b, caps, e)"
      by (subst (asm) search.simps) simp
    from Cons.IH [OF this] obtain r g rest where
      "xs = r @ CHR ''/'' # g @ CHR ''/'' # rest" "\<forall>c\<in>set g. seg_char c"
      "b = Suc pos + length r" "caps = [Suc b, Suc b + length g]" "e = Suc (Suc b + length g)"
      by blast
    then have "x # xs = (x # r) @ CHR ''/'' # g @ CHR ''/'' # rest \<and> (\<forall>c\<in>set g. seg_char c)
      \<and> b = pos + length (x # r)
      \<and> caps = [Suc b, Suc b + length g] \<and> e = Suc (Suc b + length g)" by simp
    then show ?thesis by blast
  next
    case (Some ce)
    obtain caps' e' where ce: "ce = (caps', e')" by (cases ce)
    with Some Cons.prems have eq: "b = pos" "caps' = caps" "e' = e"
      by (subst (asm) search.simps, simp)+
    from run_reGroup_Some [OF Some [unfolded ce]] obtain g rest where
      "x # xs = CHR ''/'' # g @ CHR ''/'' # rest" "\<forall>c\<in>set g. seg_char c"
      "caps' = [Suc pos, Suc pos + length g]" "e' = Suc (Suc pos + length g)" by blast
    then have "x # xs = [] @ CHR ''/'' # g @ CHR ''/'' # rest \<and> (\<forall>c\<in>set g. seg_char c)
      \<and> b = pos + length ([]::string)
      \<and> caps = [Suc b, Suc b + length g] \<and> e = Suc (Suc b + length g)"
      using eq by simp
    then show ?thesis by blast
  qed
qed

lemma FindStringSubmatch_reGroup:
  "FindStringSubmatch reGroup s = [] \<and> search reGroup s 0 = None
   \<or> (\<exists>r g rest. s = r @ CHR ''/'' # g @ CHR ''/'' # rest \<and> (\<forall>c\<in>set g. seg_char c)
        \<and> FindStringSubmatch reGroup s = [CHR ''/'' # g @ ''/'', g])"
proof (cases "search reGroup s 0")
  case None
  then show ?thesis by (simp add: FindStringSubmatch_def)
next
  case (Some m)
  obtain b caps e where m: "m = (b, caps, e)" by (cases m)
  from search_reGroup_Some [OF Some [unfolded m]] obtain r g rest where
    s: "s = r @ CHR ''/'' # g @ CHR ''/'' # rest" and g: "\<forall>c\<in>set g. seg_char c"
    and b: "b = length r" and c: "caps = [Suc b, Suc b + length g]"
    and e: "e = Suc (Suc b + length g)" by auto
  have "FindStringSubmatch reGroup s = [CHR ''/'' # g @ ''/'', g]"
    unfolding FindStringSubmatch_def Some m
    by (simp add: s b c e slice_def)
  then show ?thesis using s g by blast
qed

lemma group_sound:
  "group img = [] \<or> (\<exists>r rest. img = r @ ''/'' @ group img @ ''/'' @ rest)"
proof -
  from FindStringSubmatch_reGroup [of img] consider "FindStringSubmatch reGroup img = []"
    | r g rest where "img = r @ CHR ''/'' # g @ CHR ''/'' # rest"
        "FindStringSubmatch reGroup img = [CHR ''/'' # g @ ''/'', g]"
    by blast
  then show ?thesis
  proof cases
    case 1
    then show ?thesis by (simp add: group_def)
  next
    case 2
    then have "group img = g" by (simp add: group_def)
    with 2(1) have "img = r @ ''/'' @ group img @ ''/'' @ rest" by simp
    then show ?thesis by blast
  qed
qed

lemma group_none:
  assumes "\<forall>r g rest. img \<noteq> r @ ''/'' @ g @ ''/'' @ rest"
  shows "group img = []"
  using FindStringSubmatch_reGroup [of img] assms by (auto simp: group_def)

text \<open>
  C3. Group resolution returns the label \<open>logger.group.name\<close> when it is present
  and non-empty, and the default derived from the image otherwise. For an image
  \<open>registry/group/rest\<close>, where \<open>registry\<close> is the text before the first slash and
  \<open>group\<close> a segment (no slash and no line feed, which the dot of the pattern does not
  match), the default is \<open>group\<close>; for an image that has no segment between two
  slashes the default is the empty string; and a non-empty default is always a segment
  of the image between two slashes.
\<close>

theorem group_resolution:
  "(lbls ''logger.group.name'' = Some v \<and> v \<noteq> [] \<longrightarrow> buildGroupName lbls (group img) = v)
   \<and> (lbls ''logger.group.name'' = None \<or> lbls ''logger.group.name'' = Some [] \<longrightarrow>
        buildGroupName lbls (group img) = group img)
   \<and> (CHR ''/'' \<notin> set registry \<and> CHR ''/'' \<notin> set g \<and> CHR 0x0A \<notin> set g \<longrightarrow>
        group (registry @ ''/'' @ g @ ''/'' @ rest) = g)
   \<and> ((\<forall>r g' rest'. img \<noteq> r @ ''/'' @ g' @ ''/'' @ rest') \<longrightarrow> group img = [])
   \<and> (group img \<noteq> [] \<longrightarrow> (\<exists>r rest'. img = r @ ''/'' @ group img @ ''/'' @ rest'))"
proof -
  have "lbls ''logger.group.name'' = Some v \<and> v \<noteq> [] \<longrightarrow> buildGroupName lbls (group img) = v"
    by (simp add: buildGroupName_def)
  moreover have "lbls ''logger.group.name'' = None \<or> lbls ''logger.group.name'' = Some [] \<longrightarrow>
        buildGroupName lbls (group img) = group img"
    by (auto simp add: buildGroupName_def)
  moreover have "CHR ''/'' \<notin> set registry \<and> CHR ''/'' \<notin> set g \<and> CHR 0x0A \<notin> set g \<longrightarrow>
        group (registry @ ''/'' @ g @ ''/'' @ rest) = g"
    using group_segment by blast
  moreover have "(\<forall>r g' rest'. img \<noteq> r @ ''/'' @ g' @ ''/'' @ rest') \<longrightarrow> group img = []"
    using group_none by blast
  moreover have "group img \<noteq> [] \<longrightarrow> (\<exists>r rest'. img = r @ ''/'' @ group img @ ''/'' @ rest')"
    using group_sound [of img] by blast
  ultimately show ?thesis by blast
qed

lemma no_slash_no_segment:
  "CHR ''/'' \<notin> set img \<Longrightarrow> img \<noteq> r @ ''/'' @ g @ ''/'' @ rest"
  by auto

theorem group_resolution_witness:
  "buildGroupName [''logger.group.name'' \<mapsto> ''ops''] (group ''registry/group/image:tag'') = ''ops''
   \<and> buildGroupName Map.empty (group ''registry/group/image:tag'') = ''group''
   \<and> group ''nginx:latest'' = []"
proof -
  have 1: "buildGroupName [''logger.group.name'' \<mapsto> ''ops''] (group ''registry/group/image:tag'') = ''ops''"
    using group_resolution [of "[''logger.group.name'' \<mapsto> ''ops'']" "''ops''"
        "''registry/group/image:tag''"]
    by simp
  have 2: "group ''registry/group/image:tag'' = ''group''"
    using group_resolution [of Map.empty _ _ "''registry''" "''group''" "''image:tag''"]
    by simp
  have 3: "buildGroupName Map.empty (group ''registry/group/image:tag'')
      = group ''registry/group/image:tag''"
    using group_resolution [of Map.empty _ "''registry/group/image:tag''"]
    by simp
  have 4: "group ''nginx:latest'' = []"
    using group_resolution [of Map.empty _ "''nginx:latest''"]
      no_slash_no_segment [of "''nginx:latest''"]
    by simp
  show ?thesis using 1 2 3 4 by simp
qed

subsection \<open>The swarm pattern\<close>

declare run.simps [simp del]

lemma run_Nil [simp]: "run [] s pos caps = Some (caps, pos)"
  by (simp add: run.simps)

lemma run_Lit_Cons [simp]:
  "run (Lit c # p) (x # xs) pos caps = (if x = c then run p xs (Suc pos) caps else None)"
  by (simp add: run.simps)

lemma run_Lit_Nil [simp]: "run (Lit c # p) [] pos caps = None"
  by (simp add: run.simps)

lemma run_Cap [simp]:
  "run (CapOpen # p) s pos caps = run p s pos (caps @ [pos])"
  "run (CapClose # p) s pos caps = run p s pos (caps @ [pos])"
  by (simp_all add: run.simps)

lemma run_Star_Nil [simp]: "run (Star k # p) [] pos caps = run p [] pos caps"
  by (simp add: run.simps)

lemma run_Star_Cons:
  "run (Star k # p) (x # xs) pos caps =
     (if cls_matches k x then
        (case run (Star k # p) xs (Suc pos) caps of
           Some r \<Rightarrow> Some r
         | None \<Rightarrow> run p (x # xs) pos caps)
      else run p (x # xs) pos caps)"
  by (simp add: run.simps)

lemma run_Plus_Nil [simp]: "run (Plus k # p) [] pos caps = None"
  by (simp add: run.simps)

lemma run_Plus_Cons [simp]:
  "run (Plus k # p) (x # xs) pos caps =
     (if cls_matches k x then run (Star k # p) xs (Suc pos) caps else None)"
  by (simp add: run.simps)

lemma cls_digit [simp]: "cls_matches Digit c = digit c"
  by (simp add: digit_def)

lemma cls_any [simp]: "cls_matches AnyCharNotNL c = not_nl c"
  by (simp add: not_nl_def)

lemma digit_not_dot: "digit c \<Longrightarrow> c \<noteq> CHR ''.''"
  by (auto simp: digit_def)

lemma run_last_star:
  "run [Star AnyCharNotNL, CapClose] s pos caps =
     Some (caps @ [pos + length (takeWhile not_nl s)], pos + length (takeWhile not_nl s))"
proof (induction s arbitrary: pos)
  case Nil
  show ?case by simp
next
  case (Cons x xs)
  show ?case
  proof (cases "not_nl x")
    case True
    have "run [Star AnyCharNotNL, CapClose] (x # xs) pos caps =
        (case run [Star AnyCharNotNL, CapClose] xs (Suc pos) caps of
           Some r \<Rightarrow> Some r | None \<Rightarrow> run [CapClose] (x # xs) pos caps)"
      using True by (simp add: run_Star_Cons del: cls_matches.simps)
    then show ?thesis using True by (simp only: Cons.IH) simp
  next
    case False
    then show ?thesis by (simp add: run_Star_Cons del: cls_matches.simps)
  qed
qed

lemma run_digits:
  "run (Star Digit # CapClose # Lit CHR ''.'' # q) s pos caps =
     run (CapClose # Lit CHR ''.'' # q) (dropWhile digit s) (pos + length (takeWhile digit s)) caps"
proof (induction s arbitrary: pos)
  case Nil
  show ?case by simp
next
  case (Cons x xs)
  show ?case
  proof (cases "digit x")
    case True
    then have nd: "x \<noteq> CHR ''.''" by (rule digit_not_dot)
    have here: "run (CapClose # Lit CHR ''.'' # q) (x # xs) pos caps = None"
      using nd by simp
    have "run (Star Digit # CapClose # Lit CHR ''.'' # q) (x # xs) pos caps =
        (case run (Star Digit # CapClose # Lit CHR ''.'' # q) xs (Suc pos) caps of
           Some r \<Rightarrow> Some r | None \<Rightarrow> run (CapClose # Lit CHR ''.'' # q) (x # xs) pos caps)"
      using True by (simp add: run_Star_Cons del: cls_matches.simps)
    also have "\<dots> = run (Star Digit # CapClose # Lit CHR ''.'' # q) xs (Suc pos) caps"
      by (simp only: here) (simp split: option.split)
    finally show ?thesis using True by (simp only: Cons.IH) simp
  next
    case False
    then show ?thesis by (simp add: run_Star_Cons del: cls_matches.simps)
  qed
qed

lemma run_tail_Cons:
  "run reSwarmTail (x # xs) pos caps =
     (if x = CHR ''.'' \<and> takeWhile digit xs \<noteq> [] then
        (case dropWhile digit xs of
           [] \<Rightarrow> None
         | y # ys \<Rightarrow>
             if y = CHR ''.'' then
               Some (caps @ [Suc pos, Suc pos + length (takeWhile digit xs),
                             Suc (Suc pos + length (takeWhile digit xs)),
                             Suc (Suc pos + length (takeWhile digit xs)) + length (takeWhile not_nl ys)],
                     Suc (Suc pos + length (takeWhile digit xs)) + length (takeWhile not_nl ys))
             else None)
      else None)"
proof (cases "x = CHR ''.''")
  case False
  then show ?thesis by (simp add: reSwarmTail_def)
next
  case True
  have 1: "run reSwarmTail (x # xs) pos caps =
      run [Plus Digit, CapClose, Lit CHR ''.'', CapOpen, Star AnyCharNotNL, CapClose] xs (Suc pos)
        (caps @ [Suc pos])"
    using True by (simp add: reSwarmTail_def del: run_Plus_Cons)
  show ?thesis
  proof (cases xs)
    case Nil
    then show ?thesis using 1 True by simp
  next
    case (Cons d ds)
    show ?thesis
    proof (cases "digit d")
      case False
      then show ?thesis using 1 True Cons by (simp del: cls_matches.simps)
    next
      case dg: True
      have 2: "run reSwarmTail (x # xs) pos caps =
        run [CapClose, Lit CHR ''.'', CapOpen, Star AnyCharNotNL, CapClose] (dropWhile digit ds)
          (Suc (Suc pos) + length (takeWhile digit ds)) (caps @ [Suc pos])"
      proof -
        have "run reSwarmTail (x # xs) pos caps =
          run [Star Digit, CapClose, Lit CHR ''.'', CapOpen, Star AnyCharNotNL, CapClose] ds
            (Suc (Suc pos)) (caps @ [Suc pos])"
          unfolding 1 unfolding Cons using dg
          by (simp only: run_Plus_Cons cls_digit if_True)
        then show ?thesis by (simp only: run_digits)
      qed
      show ?thesis
      proof (cases "dropWhile digit ds")
        case Nil
        then show ?thesis unfolding 2 using True dg Cons by (simp del: dropWhile_eq_Nil_conv)
      next
        case dw: (Cons y ys)
        show ?thesis
        proof (cases "y = CHR ''.''")
          case False
          then show ?thesis unfolding 2 using True dg Cons dw by simp
        next
          case yd: True
          have "run [CapClose, Lit CHR ''.'', CapOpen, Star AnyCharNotNL, CapClose] (y # ys)
              (Suc (Suc pos) + length (takeWhile digit ds)) (caps @ [Suc pos])
            = run [Star AnyCharNotNL, CapClose] ys
                (Suc (Suc (Suc pos) + length (takeWhile digit ds)))
                (caps @ [Suc pos, Suc (Suc pos) + length (takeWhile digit ds),
                         Suc (Suc (Suc pos) + length (takeWhile digit ds))])"
            using yd by simp
          then show ?thesis unfolding 2 dw using True dg Cons dw yd
            by (simp only: run_last_star) simp
        qed
      qed
    qed
  qed
qed

lemma run_tail_Nil: "run reSwarmTail [] pos caps = None"
  by (simp add: reSwarmTail_def)

lemma run_tail_Some:
  assumes "ds \<noteq> []" "\<forall>c\<in>set ds. digit c"
  shows "run reSwarmTail (CHR ''.'' # ds @ CHR ''.'' # r) pos caps =
     Some (caps @ [Suc pos, Suc pos + length ds, Suc (Suc pos + length ds),
                   Suc (Suc pos + length ds) + length (takeWhile not_nl r)],
           Suc (Suc pos + length ds) + length (takeWhile not_nl r))"
proof -
  have nd: "\<not> digit CHR ''.''" by (simp add: digit_def)
  have tw: "takeWhile digit (ds @ CHR ''.'' # r) = ds"
    using assms(2) nd by (simp add: takeWhile_append2)
  have dw: "dropWhile digit (ds @ CHR ''.'' # r) = CHR ''.'' # r"
    using assms(2) nd by (simp add: dropWhile_append2)
  show ?thesis
    by (simp only: run_tail_Cons tw dw) (simp add: assms(1))
qed

lemma run_tail_inv:
  assumes "run reSwarmTail s pos caps = Some (cs, e)"
  shows "\<exists>ds r. s = CHR ''.'' # ds @ CHR ''.'' # r \<and> ds \<noteq> [] \<and> (\<forall>c\<in>set ds. digit c)
          \<and> cs = caps @ [Suc pos, Suc pos + length ds, Suc (Suc pos + length ds),
                   Suc (Suc pos + length ds) + length (takeWhile not_nl r)]
          \<and> e = Suc (Suc pos + length ds) + length (takeWhile not_nl r)"
proof (cases s)
  case Nil
  then show ?thesis using assms by (simp add: run_tail_Nil)
next
  case (Cons x xs)
  have eq: "run reSwarmTail (x # xs) pos caps = Some (cs, e)" using assms Cons by simp
  show ?thesis
  proof (cases "x = CHR ''.'' \<and> takeWhile digit xs \<noteq> []")
    case False
    then have "run reSwarmTail (x # xs) pos caps = None"
      by (simp only: run_tail_Cons if_False)
    with eq show ?thesis by simp
  next
    case True
    show ?thesis
    proof (cases "dropWhile digit xs")
      case Nil
      have "run reSwarmTail (x # xs) pos caps = None"
        by (simp only: run_tail_Cons Nil list.case if_cancel)
      with eq show ?thesis by simp
    next
      case dw: (Cons y ys)
      show ?thesis
      proof (cases "y = CHR ''.''")
        case False
        then have "run reSwarmTail (x # xs) pos caps = None"
          by (simp only: run_tail_Cons dw if_False list.case if_cancel)
        with eq show ?thesis by simp
      next
        case yd: True
        have "run reSwarmTail (x # xs) pos caps =
           Some (caps @ [Suc pos, Suc pos + length (takeWhile digit xs),
                         Suc (Suc pos + length (takeWhile digit xs)),
                         Suc (Suc pos + length (takeWhile digit xs)) + length (takeWhile not_nl ys)],
                 Suc (Suc pos + length (takeWhile digit xs)) + length (takeWhile not_nl ys))"
          using True by (simp only: run_tail_Cons dw yd list.case) simp
        with eq have c: "cs = caps @ [Suc pos, Suc pos + length (takeWhile digit xs),
                         Suc (Suc pos + length (takeWhile digit xs)),
                         Suc (Suc pos + length (takeWhile digit xs)) + length (takeWhile not_nl ys)]"
          and e: "e = Suc (Suc pos + length (takeWhile digit xs)) + length (takeWhile not_nl ys)"
          by auto
        have "xs = takeWhile digit xs @ CHR ''.'' # ys"
          using takeWhile_dropWhile_id [of digit xs] dw yd by simp
        then have s: "s = CHR ''.'' # takeWhile digit xs @ CHR ''.'' # ys"
          using Cons True by simp
        have d: "\<forall>c\<in>set (takeWhile digit xs). digit c"
          by (auto dest: set_takeWhileD)
        from s True d c e show ?thesis by blast
      qed
    qed
  qed
qed

text \<open>The greedy first group: the search goes as deep as the line allows.\<close>

lemma run_star_step:
  "not_nl x \<Longrightarrow>
   run (Star AnyCharNotNL # p) (x # xs) pos caps =
     (case run (Star AnyCharNotNL # p) xs (Suc pos) caps of
        Some r \<Rightarrow> Some r
      | None \<Rightarrow> run p (x # xs) pos caps)"
  by (simp add: run_Star_Cons del: cls_matches.simps)

lemma run_star_stop:
  "\<not> not_nl x \<Longrightarrow> run (Star AnyCharNotNL # p) (x # xs) pos caps = run p (x # xs) pos caps"
  by (simp add: run_Star_Cons del: cls_matches.simps)

lemma run_star_inv:
  "run (Star AnyCharNotNL # p) s pos caps = Some r \<Longrightarrow>
   \<exists>a s'. s = a @ s' \<and> (\<forall>c\<in>set a. not_nl c) \<and> run p s' (pos + length a) caps = Some r"
proof (induction s arbitrary: pos)
  case Nil
  then have "run p [] pos caps = Some r" by (simp only: run_Star_Nil)
  then have "[] = [] @ [] \<and> (\<forall>c\<in>set ([]::string). not_nl c)
      \<and> run p [] (pos + length ([]::string)) caps = Some r" by simp
  then show ?case by (intro exI)
next
  case (Cons x xs)
  have here: "\<exists>a s'. x # xs = a @ s' \<and> (\<forall>c\<in>set a. not_nl c)
      \<and> run p s' (pos + length a) caps = Some r"
    if "run p (x # xs) pos caps = Some r"
  proof -
    from that have "x # xs = [] @ (x # xs) \<and> (\<forall>c\<in>set ([]::string). not_nl c)
      \<and> run p (x # xs) (pos + length ([]::string)) caps = Some r" by simp
    then show ?thesis by (intro exI)
  qed
  show ?case
  proof (cases "not_nl x")
    case False
    have "run p (x # xs) pos caps = Some r"
      using Cons.prems run_star_stop [OF False, of p xs pos caps] by simp
    then show ?thesis by (rule here)
  next
    case True
    show ?thesis
    proof (cases "run (Star AnyCharNotNL # p) xs (Suc pos) caps")
      case None
      have "run (Star AnyCharNotNL # p) (x # xs) pos caps = run p (x # xs) pos caps"
        by (simp only: run_star_step [OF True] None option.case)
      with Cons.prems have "run p (x # xs) pos caps = Some r" by simp
      then show ?thesis by (rule here)
    next
      case (Some r')
      have "run (Star AnyCharNotNL # p) (x # xs) pos caps = Some r'"
        by (simp only: run_star_step [OF True] Some option.case)
      with Cons.prems Some have "run (Star AnyCharNotNL # p) xs (Suc pos) caps = Some r" by simp
      from Cons.IH [OF this] obtain a s' where
        "xs = a @ s'" "\<forall>c\<in>set a. not_nl c" "run p s' (Suc pos + length a) caps = Some r"
        by (elim exE conjE)
      then have "x # xs = (x # a) @ s' \<and> (\<forall>c\<in>set (x # a). not_nl c)
        \<and> run p s' (pos + length (x # a)) caps = Some r" using True by simp
      then show ?thesis by (intro exI)
    qed
  qed
qed

lemma run_star_skip:
  "\<forall>c\<in>set a. not_nl c \<Longrightarrow> run (Star AnyCharNotNL # p) s' (pos + length a) caps = Some r \<Longrightarrow>
   run (Star AnyCharNotNL # p) (a @ s') pos caps = Some r"
proof (induction a arbitrary: pos)
  case Nil
  then show ?case by simp
next
  case (Cons x xs)
  then have "run (Star AnyCharNotNL # p) (xs @ s') (Suc pos) caps = Some r" by simp
  moreover have "not_nl x" using Cons.prems by simp
  ultimately show ?case by (simp only: append_Cons run_star_step) simp
qed

text \<open>The search over the start positions.\<close>

lemma search_inv:
  "search p s pos = Some (b, caps, e) \<Longrightarrow>
   \<exists>pre s'. s = pre @ s' \<and> b = pos + length pre \<and> run p s' b [] = Some (caps, e)"
proof (induction s arbitrary: pos)
  case Nil
  then have "run p [] pos [] = Some (caps, e) \<and> b = pos"
    by (subst (asm) search.simps) (auto split: option.splits)
  then have "[] = [] @ [] \<and> b = pos + length ([]::string) \<and> run p [] b [] = Some (caps, e)"
    by simp
  then show ?case by (intro exI)
next
  case (Cons x xs)
  show ?case
  proof (cases "run p (x # xs) pos []")
    case None
    with Cons.prems have "search p xs (Suc pos) = Some (b, caps, e)"
      by (subst (asm) search.simps) simp
    from Cons.IH [OF this] obtain pre s' where
      "xs = pre @ s'" "b = Suc pos + length pre" "run p s' b [] = Some (caps, e)"
      by (elim exE conjE)
    then have "x # xs = (x # pre) @ s' \<and> b = pos + length (x # pre)
       \<and> run p s' b [] = Some (caps, e)" by simp
    then show ?thesis by (intro exI)
  next
    case (Some ce)
    with Cons.prems have "ce = (caps, e) \<and> b = pos"
      by (subst (asm) search.simps) (auto split: prod.splits)
    with Some have "x # xs = [] @ (x # xs) \<and> b = pos + length ([]::string)
       \<and> run p (x # xs) b [] = Some (caps, e)" by simp
    then show ?thesis by (intro exI)
  qed
qed

lemma search_first:
  "run p s pos [] = Some (caps, e) \<Longrightarrow> search p s pos = Some (pos, caps, e)"
  by (subst search.simps) simp

lemma search_complete:
  "run p s' (pos + length pre) [] \<noteq> None \<Longrightarrow> search p (pre @ s') pos \<noteq> None"
proof (induction pre arbitrary: pos)
  case Nil
  then show ?case by (subst search.simps) (auto split: option.splits)
next
  case (Cons x xs)
  then have "search p (xs @ s') (Suc pos) \<noteq> None" by simp
  then show ?case by (subst search.simps) (auto split: option.splits)
qed

text \<open>The swarm pattern from one start position.\<close>

lemma run_reSwarm:
  "run reSwarm s pos [] = run (Star AnyCharNotNL # CapClose # reSwarmTail) s pos [pos]"
  by (simp add: reSwarm_def reSwarmTail_def)

lemma run_reSwarm_inv:
  assumes "run reSwarm s pos [] = Some (cs, e)"
  shows "\<exists>a ds r. s = a @ CHR ''.'' # ds @ CHR ''.'' # r \<and> (\<forall>c\<in>set a. not_nl c)
          \<and> ds \<noteq> [] \<and> (\<forall>c\<in>set ds. digit c)
          \<and> cs = [pos, pos + length a, Suc (pos + length a), Suc (pos + length a) + length ds,
                  Suc (Suc (pos + length a) + length ds), e]
          \<and> e = Suc (Suc (pos + length a) + length ds) + length (takeWhile not_nl r)"
proof -
  from assms have "run (Star AnyCharNotNL # CapClose # reSwarmTail) s pos [pos] = Some (cs, e)"
    by (simp only: run_reSwarm)
  from run_star_inv [OF this] obtain a s' where
    s: "s = a @ s'" and a: "\<forall>c\<in>set a. not_nl c"
    and r: "run (CapClose # reSwarmTail) s' (pos + length a) [pos] = Some (cs, e)"
    by (elim exE conjE)
  from r have "run reSwarmTail s' (pos + length a) [pos, pos + length a] = Some (cs, e)"
    by simp
  from run_tail_inv [OF this] obtain ds r where
    "s' = CHR ''.'' # ds @ CHR ''.'' # r" "ds \<noteq> []" "\<forall>c\<in>set ds. digit c"
    "cs = [pos, pos + length a] @ [Suc (pos + length a), Suc (pos + length a) + length ds,
        Suc (Suc (pos + length a) + length ds),
        Suc (Suc (pos + length a) + length ds) + length (takeWhile not_nl r)]"
    "e = Suc (Suc (pos + length a) + length ds) + length (takeWhile not_nl r)"
    by (elim exE conjE)
  with s a have "s = a @ CHR ''.'' # ds @ CHR ''.'' # r \<and> (\<forall>c\<in>set a. not_nl c)
          \<and> ds \<noteq> [] \<and> (\<forall>c\<in>set ds. digit c)
          \<and> cs = [pos, pos + length a, Suc (pos + length a), Suc (pos + length a) + length ds,
                  Suc (Suc (pos + length a) + length ds), e]
          \<and> e = Suc (Suc (pos + length a) + length ds) + length (takeWhile not_nl r)"
    by simp
  then show ?thesis by (intro exI)
qed

lemma run_star_dot:
  assumes "ds \<noteq> []" "\<forall>c\<in>set ds. digit c"
  shows "run (Star AnyCharNotNL # CapClose # reSwarmTail) (CHR ''.'' # ds @ CHR ''.'' # v) pos caps
           \<noteq> None"
proof -
  have nn: "not_nl CHR ''.''" by (simp add: not_nl_def)
  have "run (CapClose # reSwarmTail) (CHR ''.'' # ds @ CHR ''.'' # v) pos caps \<noteq> None"
    by (simp add: run_tail_Some [OF assms])
  then show ?thesis
    by (simp only: run_star_step [OF nn]) (simp split: option.split)
qed

lemma search_reSwarm_complete:
  assumes "ds \<noteq> []" "\<forall>c\<in>set ds. digit c"
  shows "search reSwarm (u @ CHR ''.'' # ds @ CHR ''.'' # v) 0 \<noteq> None"
proof -
  have "run reSwarm (CHR ''.'' # ds @ CHR ''.'' # v) (0 + length u) [] \<noteq> None"
    by (simp only: run_reSwarm run_star_dot [OF assms] not_False_eq_True)
  then show ?thesis by (rule search_complete)
qed

lemma run_reSwarm_line:
  assumes "ds \<noteq> []" "\<forall>c\<in>set ds. digit c" "\<forall>c\<in>set u. not_nl c"
  shows "run reSwarm (u @ CHR ''.'' # ds @ CHR ''.'' # v) 0 [] \<noteq> None"
proof -
  from run_star_dot [OF assms(1,2), of v "0 + length u" "[0]"] obtain r where
    "run (Star AnyCharNotNL # CapClose # reSwarmTail) (CHR ''.'' # ds @ CHR ''.'' # v)
       (0 + length u) [0] = Some r" by (auto simp del: add_0)
  from run_star_skip [OF assms(3) this] show ?thesis
    by (simp only: run_reSwarm) simp
qed

text \<open>What \<open>FindStringSubmatch reSwarm\<close> returns.\<close>

lemma slice_mid: "slice (pre @ m @ post) (length pre) (length pre + length m) = m"
  by (simp add: slice_def)

lemma FindStringSubmatch_reSwarm_at:
  assumes "run reSwarm (a @ CHR ''.'' # ds @ CHR ''.'' # r) (length pre) [] = Some (cs, e)"
    and cs: "cs = [length pre, length pre + length a, Suc (length pre + length a),
                  Suc (length pre + length a) + length ds,
                  Suc (Suc (length pre + length a) + length ds), e]"
    and e: "e = Suc (Suc (length pre + length a) + length ds) + length (takeWhile not_nl r)"
    and sr: "search reSwarm (pre @ a @ CHR ''.'' # ds @ CHR ''.'' # r) 0 = Some (length pre, cs, e)"
  shows "FindStringSubmatch reSwarm (pre @ a @ CHR ''.'' # ds @ CHR ''.'' # r) =
           [a @ CHR ''.'' # ds @ CHR ''.'' # takeWhile not_nl r, a, ds, takeWhile not_nl r]"
proof -
  let ?c = "takeWhile not_nl r"
  let ?post = "dropWhile not_nl r"
  let ?raw = "pre @ a @ CHR ''.'' # ds @ CHR ''.'' # r"
  have r: "r = ?c @ ?post" by simp
  have w: "slice ?raw (length pre) e = a @ CHR ''.'' # ds @ CHR ''.'' # ?c"
  proof -
    have "?raw = pre @ (a @ CHR ''.'' # ds @ CHR ''.'' # ?c) @ ?post" by simp
    moreover have "e = length pre + length (a @ CHR ''.'' # ds @ CHR ''.'' # ?c)"
      using e by simp
    ultimately show ?thesis using slice_mid by metis
  qed
  have g1: "slice ?raw (length pre) (length pre + length a) = a"
  proof -
    have "?raw = pre @ a @ (CHR ''.'' # ds @ CHR ''.'' # r)" by simp
    then show ?thesis using slice_mid by metis
  qed
  have g2: "slice ?raw (Suc (length pre + length a)) (Suc (length pre + length a) + length ds) = ds"
  proof -
    have "?raw = (pre @ a @ ''.'') @ ds @ (CHR ''.'' # r)" by simp
    moreover have "Suc (length pre + length a) = length (pre @ a @ ''.'')" by simp
    ultimately show ?thesis using slice_mid by metis
  qed
  have g3: "slice ?raw (Suc (Suc (length pre + length a) + length ds)) e = ?c"
  proof -
    have "?raw = (pre @ a @ ''.'' @ ds @ ''.'') @ ?c @ ?post" by simp
    moreover have "Suc (Suc (length pre + length a) + length ds) = length (pre @ a @ ''.'' @ ds @ ''.'')"
      by simp
    moreover have "e = length (pre @ a @ ''.'' @ ds @ ''.'') + length ?c" using e by simp
    ultimately show ?thesis using slice_mid by metis
  qed
  show ?thesis
    unfolding FindStringSubmatch_def sr
    by (simp only: option.case prod.case cs submatches.simps w g1 g2 g3)
qed

lemma FindStringSubmatch_reSwarm_Some:
  assumes "search reSwarm raw 0 = Some (b, cs, e)"
  shows "\<exists>pre svc rep rest post.
           raw = pre @ svc @ CHR ''.'' # rep @ CHR ''.'' # rest @ post
           \<and> rep \<noteq> [] \<and> (\<forall>c\<in>set rep. digit c) \<and> b = length pre
           \<and> length (svc @ CHR ''.'' # rep @ CHR ''.'' # rest) = e - b
           \<and> FindStringSubmatch reSwarm raw = [svc @ CHR ''.'' # rep @ CHR ''.'' # rest, svc, rep, rest]"
proof -
  from search_inv [OF assms] obtain pre s' where
    raw: "raw = pre @ s'" and b: "b = length pre" and r: "run reSwarm s' b [] = Some (cs, e)"
    by (elim exE conjE) simp
  from run_reSwarm_inv [OF r] obtain a ds r' where
    s': "s' = a @ CHR ''.'' # ds @ CHR ''.'' # r'" and ds: "ds \<noteq> []" "\<forall>c\<in>set ds. digit c"
    and cs: "cs = [b, b + length a, Suc (b + length a), Suc (b + length a) + length ds,
                  Suc (Suc (b + length a) + length ds), e]"
    and e: "e = Suc (Suc (b + length a) + length ds) + length (takeWhile not_nl r')"
    by (elim exE conjE)
  have "FindStringSubmatch reSwarm (pre @ a @ CHR ''.'' # ds @ CHR ''.'' # r') =
           [a @ CHR ''.'' # ds @ CHR ''.'' # takeWhile not_nl r', a, ds, takeWhile not_nl r']"
    using r cs e assms unfolding raw s' b by (rule FindStringSubmatch_reSwarm_at)
  then have "raw = pre @ a @ CHR ''.'' # ds @ CHR ''.'' # takeWhile not_nl r' @ dropWhile not_nl r'
     \<and> ds \<noteq> [] \<and> (\<forall>c\<in>set ds. digit c) \<and> b = length pre
     \<and> length (a @ CHR ''.'' # ds @ CHR ''.'' # takeWhile not_nl r') = e - b
     \<and> FindStringSubmatch reSwarm raw =
           [a @ CHR ''.'' # ds @ CHR ''.'' # takeWhile not_nl r', a, ds, takeWhile not_nl r']"
    using raw s' ds b e by simp
  then show ?thesis by (intro exI)
qed

lemma FindStringSubmatch_reSwarm_None:
  assumes "search reSwarm raw 0 = None"
  shows "FindStringSubmatch reSwarm raw = []"
    and "raw = u @ CHR ''.'' # ds @ CHR ''.'' # v \<Longrightarrow> ds = [] \<or> \<not> (\<forall>c\<in>set ds. digit c)"
  using assms search_reSwarm_complete [of ds u v]
  by (auto simp: FindStringSubmatch_def)

lemma FindStringSubmatch_reSwarm_line:
  assumes nl: "\<forall>c\<in>set raw. not_nl c"
    and raw: "raw = u @ CHR ''.'' # ds @ CHR ''.'' # v"
    and ds: "ds \<noteq> []" "\<forall>c\<in>set ds. digit c"
  shows "\<exists>svc rep rest. raw = svc @ CHR ''.'' # rep @ CHR ''.'' # rest
           \<and> rep \<noteq> [] \<and> (\<forall>c\<in>set rep. digit c)
           \<and> FindStringSubmatch reSwarm raw = [raw, svc, rep, rest]"
proof -
  have "\<forall>c\<in>set u. not_nl c" using nl raw by simp
  from run_reSwarm_line [OF ds this, of v] obtain cs e where
    r: "run reSwarm raw 0 [] = Some (cs, e)" unfolding raw by auto
  from run_reSwarm_inv [OF r] obtain a ds' r' where
    s: "raw = a @ CHR ''.'' # ds' @ CHR ''.'' # r'" and ds': "ds' \<noteq> []" "\<forall>c\<in>set ds'. digit c"
    and cs: "cs = [0, 0 + length a, Suc (0 + length a), Suc (0 + length a) + length ds',
                  Suc (Suc (0 + length a) + length ds'), e]"
    and e: "e = Suc (Suc (0 + length a) + length ds') + length (takeWhile not_nl r')"
    by (elim exE conjE)
  have sr: "search reSwarm raw 0 = Some (0, cs, e)" using r by (rule search_first)
  have "\<forall>c\<in>set r'. not_nl c" using nl s by simp
  then have tw: "takeWhile not_nl r' = r'" by simp
  have "FindStringSubmatch reSwarm ([] @ a @ CHR ''.'' # ds' @ CHR ''.'' # r') =
           [a @ CHR ''.'' # ds' @ CHR ''.'' # takeWhile not_nl r', a, ds', takeWhile not_nl r']"
    by (rule FindStringSubmatch_reSwarm_at) (use r sr cs e s in simp_all)
  then have "raw = a @ CHR ''.'' # ds' @ CHR ''.'' # r'
           \<and> ds' \<noteq> [] \<and> (\<forall>c\<in>set ds'. digit c)
           \<and> FindStringSubmatch reSwarm raw = [raw, a, ds', r']"
    using s ds' tw by simp
  then show ?thesis by (intro exI)
qed

lemma dots_tail:
  assumes "run (Star AnyCharNotNL # CapClose # reSwarmTail) s pos caps = Some r"
  shows "2 \<le> length (filter (\<lambda>c. c = CHR ''.'') s)"
proof -
  obtain cs e where "r = (cs, e)" by (cases r)
  from run_star_inv [OF assms] obtain a s' where
    s: "s = a @ s'" and "run (CapClose # reSwarmTail) s' (pos + length a) caps = Some r"
    by (elim exE conjE)
  then have "run reSwarmTail s' (pos + length a) (caps @ [pos + length a]) = Some (cs, e)"
    using \<open>r = (cs, e)\<close> by simp
  from run_tail_inv [OF this] obtain ds r' where "s' = CHR ''.'' # ds @ CHR ''.'' # r'"
    by (elim exE conjE)
  with s show ?thesis by simp
qed

lemma FindStringSubmatch_reSwarm_task:
  assumes svc: "\<forall>c\<in>set svc. not_nl c"
    and rep: "rep \<noteq> []" "\<forall>c\<in>set rep. digit c"
    and rest: "CHR ''.'' \<notin> set rest"
  shows "FindStringSubmatch reSwarm (svc @ CHR ''.'' # rep @ CHR ''.'' # rest) =
           [svc @ CHR ''.'' # rep @ CHR ''.'' # takeWhile not_nl rest, svc, rep, takeWhile not_nl rest]"
proof -
  let ?P = "CapClose # reSwarmTail"
  let ?s = "CHR ''.'' # rep @ CHR ''.'' # rest"
  let ?e = "Suc (Suc (length svc) + length rep) + length (takeWhile not_nl rest)"
  let ?cs = "[0, length svc, Suc (length svc), Suc (length svc) + length rep,
                  Suc (Suc (length svc) + length rep), ?e]"
  have nn: "not_nl CHR ''.''" by (simp add: not_nl_def)
  have "filter (\<lambda>c. c = CHR ''.'') rep = []"
    using rep(2) by (auto simp: filter_empty_conv dest: digit_not_dot)
  moreover have "filter (\<lambda>c. c = CHR ''.'') rest = []"
    using rest by (auto simp: filter_empty_conv)
  ultimately have "length (filter (\<lambda>c. c = CHR ''.'') (rep @ CHR ''.'' # rest)) = 1"
    by simp
  then have deeper: "run (Star AnyCharNotNL # ?P) (rep @ CHR ''.'' # rest) (Suc (length svc)) [0] = None"
    using dots_tail [of "rep @ CHR ''.'' # rest" "Suc (length svc)" "[0]"]
    by (cases "run (Star AnyCharNotNL # ?P) (rep @ CHR ''.'' # rest) (Suc (length svc)) [0]") auto
  have "run (Star AnyCharNotNL # ?P) ?s (length svc) [0] = run ?P ?s (length svc) [0]"
    by (simp only: run_star_step [OF nn] deeper option.case)
  also have "\<dots> = Some (?cs, ?e)"
    by (simp add: run_tail_Some [OF rep])
  finally have "run (Star AnyCharNotNL # ?P) ?s (0 + length svc) [0] = Some (?cs, ?e)" by simp
  from run_star_skip [OF svc this] have r: "run reSwarm (svc @ ?s) 0 [] = Some (?cs, ?e)"
    by (simp only: run_reSwarm)
  then have sr: "search reSwarm (svc @ ?s) 0 = Some (0, ?cs, ?e)" by (rule search_first)
  have "FindStringSubmatch reSwarm ([] @ svc @ CHR ''.'' # rep @ CHR ''.'' # rest) =
           [svc @ CHR ''.'' # rep @ CHR ''.'' # takeWhile not_nl rest, svc, rep, takeWhile not_nl rest]"
    by (rule FindStringSubmatch_reSwarm_at [where cs = ?cs and e = ?e]) (use r sr in simp_all)
  then show ?thesis by simp
qed

lemma buildContainerName_match:
  "FindStringSubmatch reSwarm raw = [w, svc, rep, rest] \<Longrightarrow>
   buildContainerName lbls raw = svc @ ''-'' @ rep"
  by (simp add: buildContainerName_def)

lemma buildContainerName_no_match:
  "FindStringSubmatch reSwarm raw = [] \<Longrightarrow>
   buildContainerName lbls raw =
     (case lbls ''logger.container.name'' of
        Some labelName \<Rightarrow> if labelName \<noteq> [] then labelName else raw
      | None \<Rightarrow> raw)"
  by (simp add: buildContainerName_def split: option.splits)

lemma not_nl_set: "(\<forall>c\<in>set s. not_nl c) \<longleftrightarrow> CHR 0x0A \<notin> set s"
  by (auto simp: not_nl_def)

lemma buildContainerName_swarm:
  assumes raw: "raw = u @ ''.'' @ ds @ ''.'' @ v" and ds: "ds \<noteq> []" "\<forall>c\<in>set ds. digit c"
  shows "\<exists>pre svc rep rest post.
           raw = pre @ svc @ ''.'' @ rep @ ''.'' @ rest @ post
           \<and> rep \<noteq> [] \<and> (\<forall>c\<in>set rep. digit c)
           \<and> (CHR 0x0A \<notin> set raw \<longrightarrow> pre = [] \<and> post = [])
           \<and> buildContainerName lbls raw = svc @ ''-'' @ rep"
proof (cases "CHR 0x0A \<in> set raw")
  case True
  have "search reSwarm raw 0 \<noteq> None"
    using search_reSwarm_complete [OF ds, of u v] raw by simp
  then obtain b cs e where "search reSwarm raw 0 = Some (b, cs, e)" by auto
  from FindStringSubmatch_reSwarm_Some [OF this] obtain pre svc rep rest post where
    "raw = pre @ svc @ CHR ''.'' # rep @ CHR ''.'' # rest @ post"
    "rep \<noteq> []" "\<forall>c\<in>set rep. digit c"
    "FindStringSubmatch reSwarm raw = [svc @ CHR ''.'' # rep @ CHR ''.'' # rest, svc, rep, rest]"
    by (elim exE conjE)
  then have "raw = pre @ svc @ ''.'' @ rep @ ''.'' @ rest @ post
           \<and> rep \<noteq> [] \<and> (\<forall>c\<in>set rep. digit c)
           \<and> (CHR 0x0A \<notin> set raw \<longrightarrow> pre = [] \<and> post = [])
           \<and> buildContainerName lbls raw = svc @ ''-'' @ rep"
    using True by (simp add: buildContainerName_match)
  then show ?thesis by (intro exI)
next
  case False
  then have "\<forall>c\<in>set raw. not_nl c" by (simp add: not_nl_set)
  from FindStringSubmatch_reSwarm_line [OF this _ ds, of u v] raw obtain svc rep rest where
    "raw = svc @ CHR ''.'' # rep @ CHR ''.'' # rest"
    "rep \<noteq> []" "\<forall>c\<in>set rep. digit c"
    "FindStringSubmatch reSwarm raw = [raw, svc, rep, rest]"
    by auto
  then have "raw = [] @ svc @ ''.'' @ rep @ ''.'' @ rest @ []
           \<and> rep \<noteq> [] \<and> (\<forall>c\<in>set rep. digit c)
           \<and> (CHR 0x0A \<notin> set raw \<longrightarrow> ([]::string) = [] \<and> ([]::string) = [])
           \<and> buildContainerName lbls raw = svc @ ''-'' @ rep"
    by (simp add: buildContainerName_match)
  then show ?thesis by (intro exI)
qed

lemma buildContainerName_no_swarm:
  assumes "\<forall>u ds v. raw = u @ ''.'' @ ds @ ''.'' @ v \<longrightarrow> ds = [] \<or> \<not> (\<forall>c\<in>set ds. digit c)"
  shows "buildContainerName lbls raw =
     (case lbls ''logger.container.name'' of
        Some labelName \<Rightarrow> if labelName \<noteq> [] then labelName else raw
      | None \<Rightarrow> raw)"
proof (cases "search reSwarm raw 0")
  case None
  then show ?thesis
    by (simp add: FindStringSubmatch_reSwarm_None(1) buildContainerName_no_match)
next
  case (Some m)
  obtain b cs e where "m = (b, cs, e)" by (cases m)
  from FindStringSubmatch_reSwarm_Some [OF Some [unfolded this]] obtain pre svc rep rest post where
    "raw = pre @ svc @ CHR ''.'' # rep @ CHR ''.'' # rest @ post"
    "rep \<noteq> []" "\<forall>c\<in>set rep. digit c"
    by (elim exE conjE)
  then have "raw = (pre @ svc) @ ''.'' @ rep @ ''.'' @ (rest @ post)" by simp
  with assms \<open>rep \<noteq> []\<close> \<open>\<forall>c\<in>set rep. digit c\<close> show ?thesis by blast
qed

text \<open>
  C2. Name resolution on the raw name (the runtime's name without its one leading
  slash). A raw name \<open>service.replica.rest\<close>, with a non-empty decimal replica number, a
  service on one line and a rest without dots (a task id), resolves to
  \<open>service-replica\<close> whatever the labels are. More generally, whenever the raw name
  contains a dot, a non-empty run of digits and a dot, the pattern matches and the result
  is \<open>service-replica\<close> for the service and the replica number of a decomposition of
  the raw name (of the whole raw name when it has no line feed). When the pattern
  does not match, the label \<open>logger.container.name\<close> is returned if it is present and
  non-empty, and the raw name unchanged otherwise. The raw name \<open>service.3.abcdef\<close>
  resolves to \<open>service-3\<close>.
\<close>

theorem buildContainerName_precedence:
  "(rep \<noteq> [] \<and> (\<forall>c\<in>set rep. digit c) \<and> CHR 0x0A \<notin> set svc \<and> CHR ''.'' \<notin> set rest \<longrightarrow>
       buildContainerName lbls (svc @ ''.'' @ rep @ ''.'' @ rest) = svc @ ''-'' @ rep)
   \<and> (raw = u @ ''.'' @ ds @ ''.'' @ v \<and> ds \<noteq> [] \<and> (\<forall>c\<in>set ds. digit c) \<longrightarrow>
        (\<exists>pre svc' rep' rest' post.
            raw = pre @ svc' @ ''.'' @ rep' @ ''.'' @ rest' @ post
            \<and> rep' \<noteq> [] \<and> (\<forall>c\<in>set rep'. digit c)
            \<and> (CHR 0x0A \<notin> set raw \<longrightarrow> pre = [] \<and> post = [])
            \<and> buildContainerName lbls raw = svc' @ ''-'' @ rep'))
   \<and> ((\<forall>u ds v. raw = u @ ''.'' @ ds @ ''.'' @ v \<longrightarrow> ds = [] \<or> \<not> (\<forall>c\<in>set ds. digit c))
        \<and> lbls ''logger.container.name'' = Some l \<and> l \<noteq> [] \<longrightarrow>
        buildContainerName lbls raw = l)
   \<and> ((\<forall>u ds v. raw = u @ ''.'' @ ds @ ''.'' @ v \<longrightarrow> ds = [] \<or> \<not> (\<forall>c\<in>set ds. digit c))
        \<and> (lbls ''logger.container.name'' = None \<or> lbls ''logger.container.name'' = Some []) \<longrightarrow>
        buildContainerName lbls raw = raw)
   \<and> buildContainerName lbls ''service.3.abcdef'' = ''service-3''
   \<and> TrimPrefix (''/'' @ raw) ''/'' = raw"
proof -
  have task: "buildContainerName lbls (svc @ ''.'' @ rep @ ''.'' @ rest) = svc @ ''-'' @ rep"
    if "rep \<noteq> []" "\<forall>c\<in>set rep. digit c" "CHR 0x0A \<notin> set svc" "CHR ''.'' \<notin> set rest"
    for svc rep rest
  proof -
    from that(3) have "\<forall>c\<in>set svc. not_nl c" by (simp add: not_nl_set)
    from FindStringSubmatch_reSwarm_task [OF this that(1,2,4)] show ?thesis
      by (simp add: buildContainerName_match)
  qed
  have c1: "rep \<noteq> [] \<and> (\<forall>c\<in>set rep. digit c) \<and> CHR 0x0A \<notin> set svc \<and> CHR ''.'' \<notin> set rest \<longrightarrow>
       buildContainerName lbls (svc @ ''.'' @ rep @ ''.'' @ rest) = svc @ ''-'' @ rep"
    using task by blast
  have c2: "raw = u @ ''.'' @ ds @ ''.'' @ v \<and> ds \<noteq> [] \<and> (\<forall>c\<in>set ds. digit c) \<longrightarrow>
        (\<exists>pre svc' rep' rest' post.
            raw = pre @ svc' @ ''.'' @ rep' @ ''.'' @ rest' @ post
            \<and> rep' \<noteq> [] \<and> (\<forall>c\<in>set rep'. digit c)
            \<and> (CHR 0x0A \<notin> set raw \<longrightarrow> pre = [] \<and> post = [])
            \<and> buildContainerName lbls raw = svc' @ ''-'' @ rep')"
    using buildContainerName_swarm [of raw u ds v lbls] by blast
  have c3: "(\<forall>u ds v. raw = u @ ''.'' @ ds @ ''.'' @ v \<longrightarrow> ds = [] \<or> \<not> (\<forall>c\<in>set ds. digit c))
        \<and> lbls ''logger.container.name'' = Some l \<and> l \<noteq> [] \<longrightarrow>
        buildContainerName lbls raw = l"
    using buildContainerName_no_swarm [of raw lbls] by simp
  have c4: "(\<forall>u ds v. raw = u @ ''.'' @ ds @ ''.'' @ v \<longrightarrow> ds = [] \<or> \<not> (\<forall>c\<in>set ds. digit c))
        \<and> (lbls ''logger.container.name'' = None \<or> lbls ''logger.container.name'' = Some []) \<longrightarrow>
        buildContainerName lbls raw = raw"
    using buildContainerName_no_swarm [of raw lbls] by auto
  have c5: "buildContainerName lbls ''service.3.abcdef'' = ''service-3''"
    using task [of "''3''" "''service''" "''abcdef''"] by (simp add: digit_def)
  have c6: "TrimPrefix (''/'' @ raw) ''/'' = raw"
    by (simp add: TrimPrefix_def)
  from c1 c2 c3 c4 c5 c6 show ?thesis by (intro conjI)
qed

lemma no_dot_no_swarm:
  "CHR ''.'' \<notin> set raw \<Longrightarrow> raw \<noteq> u @ ''.'' @ ds @ ''.'' @ v"
  by auto

theorem buildContainerName_precedence_witness:
  "buildContainerName [''logger.container.name'' \<mapsto> ''X''] ''web.2.xyz'' = ''web-2''
   \<and> (\<exists>svc rep rest. ''my.svc.10.abc'' = svc @ ''.'' @ rep @ ''.'' @ rest
         \<and> buildContainerName Map.empty ''my.svc.10.abc'' = svc @ ''-'' @ rep)
   \<and> buildContainerName [''logger.container.name'' \<mapsto> ''X''] ''worker'' = ''X''
   \<and> buildContainerName [''logger.container.name'' \<mapsto> []] ''worker'' = ''worker''
   \<and> buildContainerName Map.empty (TrimPrefix ''/worker'' ''/'') = ''worker''"
proof -
  have nd: "\<forall>u ds v. ''worker'' = u @ ''.'' @ ds @ ''.'' @ v \<longrightarrow>
      ds = [] \<or> \<not> (\<forall>c\<in>set ds. digit c)"
    using no_dot_no_swarm [of "''worker''"] by simp
  have d2: "''2'' \<noteq> [] \<and> (\<forall>c\<in>set ''2''. digit c) \<and> CHR 0x0A \<notin> set ''web''
      \<and> CHR ''.'' \<notin> set ''xyz''"
    by (simp add: digit_def)
  have "buildContainerName [''logger.container.name'' \<mapsto> ''X''] (''web'' @ ''.'' @ ''2'' @ ''.'' @ ''xyz'')
      = ''web'' @ ''-'' @ ''2''"
    using buildContainerName_precedence [of "''2''" "''web''" "''xyz''"
        "[''logger.container.name'' \<mapsto> ''X'']", THEN conjunct1] d2
    by (rule mp)
  then have 1: "buildContainerName [''logger.container.name'' \<mapsto> ''X''] ''web.2.xyz'' = ''web-2''"
    by simp
  have 2: "\<exists>svc rep rest. ''my.svc.10.abc'' = svc @ ''.'' @ rep @ ''.'' @ rest
         \<and> buildContainerName Map.empty ''my.svc.10.abc'' = svc @ ''-'' @ rep"
  proof -
    have h: "''my.svc.10.abc'' = ''my.svc'' @ ''.'' @ ''10'' @ ''.'' @ ''abc''
        \<and> ''10'' \<noteq> [] \<and> (\<forall>c\<in>set ''10''. digit c)" by (simp add: digit_def)
    have nl: "CHR 0x0A \<notin> set ''my.svc.10.abc''" by simp
    from buildContainerName_precedence [of _ _ _ Map.empty "''my.svc.10.abc''" "''my.svc''"
        "''10''" "''abc''", THEN conjunct2, THEN conjunct1, THEN mp, OF h]
    obtain pre svc rep rest post where
      a: "''my.svc.10.abc'' = pre @ svc @ ''.'' @ rep @ ''.'' @ rest @ post"
      and b: "CHR 0x0A \<notin> set ''my.svc.10.abc'' \<longrightarrow> pre = [] \<and> post = []"
      and c: "buildContainerName Map.empty ''my.svc.10.abc'' = svc @ ''-'' @ rep"
      by (elim exE conjE)
    from b nl have "pre = []" "post = []" by blast+
    with a c have "''my.svc.10.abc'' = svc @ ''.'' @ rep @ ''.'' @ rest
         \<and> buildContainerName Map.empty ''my.svc.10.abc'' = svc @ ''-'' @ rep"
      by (simp del: append_eq_Cons_conv Cons_eq_append_conv)
    then show ?thesis by (intro exI)
  qed
  have l3: "[''logger.container.name'' \<mapsto> ''X''] ''logger.container.name'' = Some ''X'' \<and> ''X'' \<noteq> []"
    by simp
  have 3: "buildContainerName [''logger.container.name'' \<mapsto> ''X''] ''worker'' = ''X''"
    using buildContainerName_precedence [of _ _ _ "[''logger.container.name'' \<mapsto> ''X'']"
        "''worker''" _ _ _ "''X''", THEN conjunct2, THEN conjunct2, THEN conjunct1] nd l3
    by blast
  have l4: "[''logger.container.name'' \<mapsto> []] ''logger.container.name'' = None
      \<or> [''logger.container.name'' \<mapsto> []] ''logger.container.name'' = Some []"
    by simp
  have 4: "buildContainerName [''logger.container.name'' \<mapsto> []] ''worker'' = ''worker''"
    using buildContainerName_precedence [of _ _ _ "[''logger.container.name'' \<mapsto> []]"
        "''worker''", THEN conjunct2, THEN conjunct2, THEN conjunct2, THEN conjunct1] nd l4
    by blast
  have l5: "(Map.empty :: labels) ''logger.container.name'' = None
      \<or> (Map.empty :: labels) ''logger.container.name'' = Some []"
    by simp
  have "buildContainerName Map.empty ''worker'' = ''worker''"
    using buildContainerName_precedence [of _ _ _ Map.empty
        "''worker''", THEN conjunct2, THEN conjunct2, THEN conjunct2, THEN conjunct1] nd l5
    by blast
  then have 5: "buildContainerName Map.empty (TrimPrefix ''/worker'' ''/'') = ''worker''"
    by (simp add: TrimPrefix_def)
  from 1 2 3 4 5 show ?thesis by (intro conjI)
qed

subsection \<open>The snapshot and construction\<close>

lemma emitLoop_Cons_named:
  assumes "Names c = name0 # names"
  shows "emitLoop e (c # cs) st =
     (if \<not> isAllowed e (snapshotName c) then emitLoop e cs st
      else case send (snapshotEvent c) st of
             None \<Rightarrow> (Blocked, st)
           | Some st' \<Rightarrow> emitLoop e cs st')"
  using assms by (simp add: snapshotName_def snapshotEvent_def Let_def)

lemma emitLoop_Cons_unnamed:
  "Names c = [] \<Longrightarrow> emitLoop e (c # cs) st = (Panic, st)"
  by simp

lemma send_Some:
  "send event st = Some st' \<longleftrightarrow>
     length (eventsCh st) < capacity
     \<and> st' = st\<lparr>eventsCh := eventsCh st @ [event], trace := trace st @ [ChanSend event]\<rparr>"
  by (auto simp: send_def)

lemma send_None: "send event st = None \<longleftrightarrow> capacity \<le> length (eventsCh st)"
  by (auto simp: send_def)

lemma emitLoop_Return:
  "emitLoop e cs st = (Return u, st') \<Longrightarrow>
   (\<forall>c\<in>set cs. Names c \<noteq> [])
   \<and> eventsCh st' =
       eventsCh st @ map snapshotEvent (filter (\<lambda>c. isAllowed e (snapshotName c)) cs)
   \<and> trace st' =
       trace st @ map ChanSend (map snapshotEvent (filter (\<lambda>c. isAllowed e (snapshotName c)) cs))"
proof (induction cs arbitrary: st)
  case Nil
  then show ?case by simp
next
  case (Cons c cs)
  show ?case
  proof (cases "Names c")
    case Nil
    with Cons.prems show ?thesis by (simp only: emitLoop_Cons_unnamed) simp
  next
    case names: (Cons name0 names)
    show ?thesis
    proof (cases "isAllowed e (snapshotName c)")
      case False
      with Cons.prems have "emitLoop e cs st = (Return u, st')"
        by (simp only: emitLoop_Cons_named [OF names]) simp
      from Cons.IH [OF this] show ?thesis using False names by simp
    next
      case True
      show ?thesis
      proof (cases "send (snapshotEvent c) st")
        case None
        with Cons.prems True show ?thesis
          by (simp only: emitLoop_Cons_named [OF names]) simp
      next
        case (Some st1)
        with Cons.prems True have "emitLoop e cs st1 = (Return u, st')"
          by (simp only: emitLoop_Cons_named [OF names]) simp
        from Cons.IH [OF this] show ?thesis
          using True names Some by (auto simp: send_Some)
      qed
    qed
  qed
qed

lemma emitLoop_total:
  "\<forall>c\<in>set cs. Names c \<noteq> [] \<Longrightarrow>
   length (eventsCh st) + length (filter (\<lambda>c. isAllowed e (snapshotName c)) cs) \<le> capacity \<Longrightarrow>
   emitLoop e cs st =
     (Return (),
      st\<lparr>eventsCh :=
            eventsCh st @ map snapshotEvent (filter (\<lambda>c. isAllowed e (snapshotName c)) cs),
          trace :=
            trace st @ map ChanSend
              (map snapshotEvent (filter (\<lambda>c. isAllowed e (snapshotName c)) cs))\<rparr>)"
proof (induction cs arbitrary: st)
  case Nil
  then show ?case by simp
next
  case (Cons c cs)
  then obtain name0 names where names: "Names c = name0 # names"
    by (cases "Names c") auto
  show ?case
  proof (cases "isAllowed e (snapshotName c)")
    case False
    then show ?thesis
      using Cons by (simp only: emitLoop_Cons_named [OF names]) simp
  next
    case True
    let ?st1 = "st\<lparr>eventsCh := eventsCh st @ [snapshotEvent c],
                    trace := trace st @ [ChanSend (snapshotEvent c)]\<rparr>"
    have "length (eventsCh st) < capacity" using Cons.prems True by simp
    then have s: "send (snapshotEvent c) st = Some ?st1" by (simp add: send_Some)
    have "emitLoop e cs ?st1 =
      (Return (),
       ?st1\<lparr>eventsCh :=
            eventsCh ?st1 @ map snapshotEvent (filter (\<lambda>c. isAllowed e (snapshotName c)) cs),
          trace :=
            trace ?st1 @ map ChanSend
              (map snapshotEvent (filter (\<lambda>c. isAllowed e (snapshotName c)) cs))\<rparr>)"
      using Cons.prems True by (intro Cons.IH) simp_all
    then show ?thesis
      using True by (simp only: emitLoop_Cons_named [OF names] s) simp
  qed
qed

lemma emitLoop_no_go:
  "GoActivate \<notin> set (trace st) \<Longrightarrow> GoActivate \<notin> set (trace (snd (emitLoop e cs st)))"
proof (induction cs arbitrary: st)
  case Nil
  then show ?case by simp
next
  case (Cons c cs)
  show ?case
  proof (cases "Names c")
    case Nil
    with Cons.prems show ?thesis by (simp only: emitLoop_Cons_unnamed) simp
  next
    case names: (Cons name0 names)
    show ?thesis
    proof (cases "send (snapshotEvent c) st")
      case None
      then show ?thesis using Cons
        by (simp only: emitLoop_Cons_named [OF names]) simp
    next
      case (Some st1)
      then have "GoActivate \<notin> set (trace st1)" using Cons.prems by (auto simp: send_Some)
      then show ?thesis using Cons Some
        by (simp only: emitLoop_Cons_named [OF names]) simp
    qed
  qed
qed

lemma emitRunningContainers_listed:
  "ListContainers client = Inr cs \<Longrightarrow>
   emitRunningContainers e client st =
     (case emitLoop e cs (st\<lparr>trace := trace st @ [CallListContainers]\<rparr>) of
        (Return u, st2) \<Rightarrow> (Return None, st2)
      | (Panic, st2) \<Rightarrow> (Panic, st2)
      | (Blocked, st2) \<Rightarrow> (Blocked, st2))"
  by (simp add: emitRunningContainers_def)

lemma emitRunningContainers_failed:
  "ListContainers client = Inl er \<Longrightarrow>
   emitRunningContainers e client st =
     (Return (Some (Wrap er ''can't list containers'')),
      st\<lparr>trace := trace st @ [CallListContainers]\<rparr>)"
  by (simp add: emitRunningContainers_def)

lemma emitRunningContainers_Return:
  assumes "ListContainers client = Inr cs"
    and "emitRunningContainers e client st = (Return r, st')"
  shows "r = None \<and> (\<forall>c\<in>set cs. Names c \<noteq> [])
    \<and> eventsCh st' =
        eventsCh st @ map snapshotEvent (filter (\<lambda>c. isAllowed e (snapshotName c)) cs)
    \<and> trace st' =
        trace st @ CallListContainers #
          map ChanSend (map snapshotEvent (filter (\<lambda>c. isAllowed e (snapshotName c)) cs))"
proof -
  let ?st1 = "st\<lparr>trace := trace st @ [CallListContainers]\<rparr>"
  obtain o2 st2 where l: "emitLoop e cs ?st1 = (o2, st2)" by (cases "emitLoop e cs ?st1")
  from assms(2) have "o2 = Return () \<and> r = None \<and> st2 = st'"
    unfolding emitRunningContainers_listed [OF assms(1)] l
    by (cases o2) auto
  with l have "emitLoop e cs ?st1 = (Return (), st')" and "r = None" by simp_all
  from emitLoop_Return [OF this(1)] \<open>r = None\<close> show ?thesis by simp
qed

lemma emitRunningContainers_total:
  assumes "ListContainers client = Inr cs"
    and "\<forall>c\<in>set cs. Names c \<noteq> []"
    and "length (eventsCh st) + length (filter (\<lambda>c. isAllowed e (snapshotName c)) cs) \<le> capacity"
  shows "emitRunningContainers e client st =
     (Return None,
      st\<lparr>eventsCh :=
            eventsCh st @ map snapshotEvent (filter (\<lambda>c. isAllowed e (snapshotName c)) cs),
          trace :=
            trace st @ CallListContainers # map ChanSend
              (map snapshotEvent (filter (\<lambda>c. isAllowed e (snapshotName c)) cs))\<rparr>)"
proof -
  let ?st1 = "st\<lparr>trace := trace st @ [CallListContainers]\<rparr>"
  have "length (eventsCh ?st1) + length (filter (\<lambda>c. isAllowed e (snapshotName c)) cs) \<le> capacity"
    using assms(3) by simp
  from emitLoop_total [OF assms(2) this] show ?thesis
    by (simp add: emitRunningContainers_listed [OF assms(1)])
qed

lemma Unix_seconds: "Unix s 0 = \<lparr>sec = s, nsec = 0\<rparr>"
  by (simp add: Unix_def)

lemma image_one_slash:
  "''myorg/api:latest'' \<noteq> r @ ''/'' @ g @ ''/'' @ rest"
proof
  assume "''myorg/api:latest'' = r @ ''/'' @ g @ ''/'' @ rest"
  then have "length (filter (\<lambda>c. c = CHR ''/'') ''myorg/api:latest'')
      = length (filter (\<lambda>c. c = CHR ''/'') (r @ ''/'' @ g @ ''/'' @ rest))"
    by (rule arg_cong)
  moreover have "length (filter (\<lambda>c. c = CHR ''/'') ''myorg/api:latest'') = 1" by simp
  moreover have "length (filter (\<lambda>c. c = CHR ''/'') (r @ ''/'' @ g @ ''/'' @ rest)) \<ge> 2"
    by simp
  ultimately show False by linarith
qed

lemma snapshotEvent_web:
  "snapshotEvent (exampleContainer ''c1'' ''/web.2.xyz'' ''myorg/api:latest'' 1700000000) =
     \<lparr>ContainerID = ''c1'', ContainerName = ''web-2'', Group = [],
      TS = \<lparr>sec = 1700000, nsec = 0\<rparr>, Status = True\<rparr>"
proof -
  have d: "''2'' \<noteq> []" "\<forall>c\<in>set ''2''. digit c" "\<forall>c\<in>set ''web''. not_nl c"
    "CHR ''.'' \<notin> set ''xyz''"
    by (simp_all add: digit_def not_nl_def)
  from FindStringSubmatch_reSwarm_task [OF d(3) d(1) d(2) d(4)]
  have "FindStringSubmatch reSwarm ''web.2.xyz'' = [''web.2.xyz'', ''web'', ''2'', ''xyz'']"
    by (simp add: not_nl_def)
  then have name: "buildContainerName Map.empty ''web.2.xyz'' = ''web-2''"
    using buildContainerName_match [of "''web.2.xyz''" "''web.2.xyz''" "''web''" "''2''" "''xyz''"]
    by simp
  have grp: "group ''myorg/api:latest'' = []"
    using image_one_slash by (intro group_none) blast
  have "sint (1700000000 :: int64) sdiv 1000 = 1700000"
    by (simp add: signed_divide_int_def)
  then show ?thesis
    by (simp add: snapshotEvent_def snapshotName_def exampleContainer_def TrimPrefix_def name grp
        buildGroupName_def Unix_seconds quo_def)
qed

text \<open>
  C6. The claim: for every listed container whose resolved name passes the policy, the
  snapshot writes exactly one event with status true whose timestamp is the creation
  value of the container read as epoch seconds. The code builds the timestamp as
  \<^verbatim>\<open>time.Unix(c.Created/1000, 0)\<close>. On the listing of the one container
  \<open>/web.2.xyz\<close> created at second 1700000000 the snapshot writes one event with status
  true, and its timestamp is second 1700000 (20 January 1970), not second 1700000000.
\<close>

theorem snapshot_timestamp_divided:
  "emitRunningContainers (listPolicy [] [])
     (listing [exampleContainer ''c1'' ''/web.2.xyz'' ''myorg/api:latest'' 1700000000]) init
   = (Return None,
      \<lparr>eventsCh =
         [\<lparr>ContainerID = ''c1'', ContainerName = ''web-2'', Group = [],
           TS = \<lparr>sec = 1700000, nsec = 0\<rparr>, Status = True\<rparr>],
       trace =
         [CallListContainers,
          ChanSend \<lparr>ContainerID = ''c1'', ContainerName = ''web-2'', Group = [],
                    TS = \<lparr>sec = 1700000, nsec = 0\<rparr>, Status = True\<rparr>]\<rparr>)
   \<and> \<lparr>sec = 1700000, nsec = 0\<rparr> \<noteq> Unix 1700000000 0"
proof -
  let ?c = "exampleContainer ''c1'' ''/web.2.xyz'' ''myorg/api:latest'' 1700000000"
  have n: "isAllowed (listPolicy [] []) (snapshotName c)" for c
    by (simp add: isAllowed_def listPolicy_def)
  have "emitRunningContainers (listPolicy [] []) (listing [?c]) init =
     (Return None,
      init\<lparr>eventsCh := eventsCh init @ map snapshotEvent
              (filter (\<lambda>c. isAllowed (listPolicy [] []) (snapshotName c)) [?c]),
          trace := trace init @ CallListContainers # map ChanSend
              (map snapshotEvent (filter (\<lambda>c. isAllowed (listPolicy [] []) (snapshotName c)) [?c]))\<rparr>)"
    by (rule emitRunningContainers_total)
       (simp_all add: listing_def exampleContainer_def init_def capacity_def)
  then have 1: "emitRunningContainers (listPolicy [] []) (listing [?c]) init =
     (Return None,
      \<lparr>eventsCh = [snapshotEvent ?c],
       trace = [CallListContainers, ChanSend (snapshotEvent ?c)]\<rparr>)"
    by (simp add: n init_def)
  have 2: "\<lparr>sec = 1700000, nsec = 0\<rparr> \<noteq> Unix 1700000000 0"
    by (simp add: Unix_seconds)
  from 1 2 show ?thesis by (simp only: snapshotEvent_web) simp
qed

text \<open>
  C10. The snapshot reads \<^verbatim>\<open>c.Names[0]\<close> without a length check. It returns only if
  every listed container has a non-empty names sequence; it does return when they all
  have one and the channel has room for them; and it panics with an index out of range at
  the first container without a name, for instance on a listing of one such container.
\<close>

theorem snapshot_needs_names:
  "(ListContainers client = Inr cs \<and> fst (emitRunningContainers e client st) = Return r \<longrightarrow>
      (\<forall>c\<in>set cs. Names c \<noteq> []))
   \<and> (ListContainers client = Inr cs \<and> (\<forall>c\<in>set cs. Names c \<noteq> [])
       \<and> length (eventsCh st) + length cs \<le> capacity \<longrightarrow>
      fst (emitRunningContainers e client st) = Return None)
   \<and> (ListContainers client = Inr (cs @ c # cs') \<and> (\<forall>c\<in>set cs. Names c \<noteq> [])
       \<and> length (eventsCh st) + length cs \<le> capacity \<and> Names c = [] \<longrightarrow>
      fst (emitRunningContainers e client st) = Panic)
   \<and> fst (emitRunningContainers e
        (listing [\<lparr>ID = i, Image = img, Created = t, Names = [], Labels = lbls\<rparr>]) st) = Panic"
proof -
  have a: "ListContainers client = Inr cs \<and> fst (emitRunningContainers e client st) = Return r \<longrightarrow>
      (\<forall>c\<in>set cs. Names c \<noteq> [])"
  proof (intro impI, elim conjE)
    assume l: "ListContainers client = Inr cs"
      and "fst (emitRunningContainers e client st) = Return r"
    then have "emitRunningContainers e client st = (Return r, snd (emitRunningContainers e client st))"
      by (metis prod.collapse)
    from emitRunningContainers_Return [OF l this] show "\<forall>c\<in>set cs. Names c \<noteq> []" by simp
  qed
  have le: "length (filter p cs) \<le> length cs" for p and cs :: "APIContainers list" by simp
  have b: "ListContainers client = Inr cs \<and> (\<forall>c\<in>set cs. Names c \<noteq> [])
       \<and> length (eventsCh st) + length cs \<le> capacity \<longrightarrow>
      fst (emitRunningContainers e client st) = Return None"
  proof (intro impI, elim conjE)
    assume l: "ListContainers client = Inr cs" and n: "\<forall>c\<in>set cs. Names c \<noteq> []"
      and k: "length (eventsCh st) + length cs \<le> capacity"
    have "length (eventsCh st) + length (filter (\<lambda>c. isAllowed e (snapshotName c)) cs) \<le> capacity"
      using k le [of "\<lambda>c. isAllowed e (snapshotName c)" cs] by linarith
    from emitRunningContainers_total [OF l n this]
    show "fst (emitRunningContainers e client st) = Return None" by simp
  qed
  have loop: "fst (emitLoop e (cs @ c # cs') s) = Panic"
    if "\<forall>c\<in>set cs. Names c \<noteq> []" "length (eventsCh s) + length cs \<le> capacity" "Names c = []"
    for s
    using that
  proof (induction cs arbitrary: s)
    case Nil
    then show ?case by simp
  next
    case (Cons d ds)
    then obtain name0 names where names: "Names d = name0 # names"
      by (cases "Names d") auto
    have room: "length (eventsCh s) < capacity" using Cons.prems(2) by simp
    show ?case
    proof (cases "isAllowed e (snapshotName d)")
      case False
      have "fst (emitLoop e (ds @ c # cs') s) = Panic"
        using Cons.prems by (intro Cons.IH) simp_all
      with False show ?thesis
        by (simp only: append_Cons emitLoop_Cons_named [OF names]) simp
    next
      case True
      let ?s1 = "s\<lparr>eventsCh := eventsCh s @ [snapshotEvent d],
                    trace := trace s @ [ChanSend (snapshotEvent d)]\<rparr>"
      have s: "send (snapshotEvent d) s = Some ?s1" using room by (simp add: send_Some)
      have "fst (emitLoop e (ds @ c # cs') ?s1) = Panic"
        using Cons.prems by (intro Cons.IH) simp_all
      with True show ?thesis
        by (simp only: append_Cons emitLoop_Cons_named [OF names] s) simp
    qed
  qed
  have c: "ListContainers client = Inr (cs @ c # cs') \<and> (\<forall>c\<in>set cs. Names c \<noteq> [])
       \<and> length (eventsCh st) + length cs \<le> capacity \<and> Names c = [] \<longrightarrow>
      fst (emitRunningContainers e client st) = Panic"
  proof (intro impI, elim conjE)
    assume l: "ListContainers client = Inr (cs @ c # cs')" and n: "\<forall>c\<in>set cs. Names c \<noteq> []"
      and k: "length (eventsCh st) + length cs \<le> capacity" and z: "Names c = []"
    let ?st1 = "st\<lparr>trace := trace st @ [CallListContainers]\<rparr>"
    have "fst (emitLoop e (cs @ c # cs') ?st1) = Panic"
      using n k z by (intro loop) simp_all
    then show "fst (emitRunningContainers e client st) = Panic"
      unfolding emitRunningContainers_listed [OF l]
      by (cases "emitLoop e (cs @ c # cs') ?st1") auto
  qed
  have d: "fst (emitRunningContainers e
        (listing [\<lparr>ID = i, Image = img, Created = t, Names = [], Labels = lbls\<rparr>]) st) = Panic"
    by (simp add: emitRunningContainers_def listing_def)
  from a b c d show ?thesis by (intro conjI)
qed

theorem snapshot_needs_names_witness:
  "fst (emitRunningContainers (listPolicy [] [])
      (listing [exampleContainer ''1'' ''/api'' ''img'' 0]) init) = Return None
   \<and> fst (emitRunningContainers (listPolicy [] [])
      (listing [exampleContainer ''1'' ''/api'' ''img'' 0,
                \<lparr>ID = ''2'', Image = ''img'', Created = 0, Names = [], Labels = Map.empty\<rparr>]) init)
     = Panic
   \<and> Names (exampleContainer ''1'' ''/api'' ''img'' 0) \<noteq> []"
proof -
  let ?a = "exampleContainer ''1'' ''/api'' ''img'' 0"
  let ?b = "\<lparr>ID = ''2'', Image = ''img'', Created = 0, Names = [], Labels = Map.empty\<rparr>"
  have h1: "ListContainers (listing [?a]) = Inr [?a] \<and> (\<forall>c\<in>set [?a]. Names c \<noteq> [])
       \<and> length (eventsCh init) + length [?a] \<le> capacity"
    by (simp add: listing_def exampleContainer_def init_def capacity_def)
  have h2: "ListContainers (listing [?a, ?b]) = Inr ([?a] @ ?b # []) \<and> (\<forall>c\<in>set [?a]. Names c \<noteq> [])
       \<and> length (eventsCh init) + length [?a] \<le> capacity \<and> Names ?b = []"
    by (simp add: listing_def exampleContainer_def init_def capacity_def)
  from snapshot_needs_names [of "listing [?a]" "[?a]" "listPolicy [] []" init,
      THEN conjunct2, THEN conjunct1, THEN mp, OF h1]
  have 1: "fst (emitRunningContainers (listPolicy [] []) (listing [?a]) init) = Return None" .
  from snapshot_needs_names [of "listing [?a, ?b]" "[?a]" "listPolicy [] []" init _ ?b "[]",
      THEN conjunct2, THEN conjunct2, THEN conjunct1, THEN mp, OF h2]
  have 2: "fst (emitRunningContainers (listPolicy [] []) (listing [?a, ?b]) init) = Panic" .
  have h3: "ListContainers (listing [?a]) = Inr [?a]
      \<and> fst (emitRunningContainers (listPolicy [] []) (listing [?a]) init) = Return None"
    using 1 by (simp add: listing_def)
  from snapshot_needs_names [of "listing [?a]" "[?a]" "listPolicy [] []" init None,
      THEN conjunct1, THEN mp, OF h3]
  have 3: "Names ?a \<noteq> []" by simp
  from 1 2 3 show ?thesis by (intro conjI)
qed

lemma compileOpt_failed:
  "pat \<noteq> [] \<Longrightarrow> Compile pat = Inl er \<Longrightarrow> compileOpt Compile pat = Inl er"
  by (simp add: compileOpt_def)

lemma compileOpt_ok:
  "\<not> (pat \<noteq> [] \<and> isl (Compile pat)) \<Longrightarrow> \<exists>re. compileOpt Compile pat = Inr re"
  by (cases "Compile pat") (simp_all add: compileOpt_def)

lemma compileOpt_empty: "compileOpt Compile [] = Inr None"
  by (simp add: compileOpt_def)

lemma NewEventNotif_includes_failed:
  assumes "includesPattern \<noteq> []" "Compile includesPattern = Inl er"
  shows "NewEventNotif Compile client excl incl includesPattern excludesPattern =
     (Return (Inl (Wrap er ''failed to compile includesPattern'')), init)"
  using assms by (simp add: NewEventNotif_def compileOpt_def)

lemma NewEventNotif_excludes_failed:
  assumes "\<not> (includesPattern \<noteq> [] \<and> isl (Compile includesPattern))"
    and "excludesPattern \<noteq> []" "Compile excludesPattern = Inl er"
  shows "NewEventNotif Compile client excl incl includesPattern excludesPattern =
     (Return (Inl (Wrap er ''failed to compile excludesPattern'')), init)"
  using assms by (cases "Compile includesPattern") (simp_all add: NewEventNotif_def compileOpt_def)

lemma NewEventNotif_compiled:
  assumes "compileOpt Compile includesPattern = Inr ire"
    and "compileOpt Compile excludesPattern = Inr ere"
    and "emitRunningContainers
           \<lparr>excludes = excl, includes' = incl, includesRegexp = ire, excludesRegexp = ere\<rparr>
           client init = (o1, st)"
  shows "NewEventNotif Compile client excl incl includesPattern excludesPattern =
     (case o1 of
        Return (Some er) \<Rightarrow> (Return (Inl (Wrap er ''failed to emit containers'')), st)
      | Return None \<Rightarrow>
          (Return (Inr \<lparr>excludes = excl, includes' = incl, includesRegexp = ire,
                         excludesRegexp = ere\<rparr>),
           st\<lparr>trace := trace st @ [GoActivate]\<rparr>)
      | Panic \<Rightarrow> (Panic, st)
      | Blocked \<Rightarrow> (Blocked, st))"
  by (simp add: NewEventNotif_def assms Let_def split: outcome.splits option.splits)

lemma emitRunningContainers_error:
  "emitRunningContainers e client st = (Return (Some er), st') \<Longrightarrow>
   \<exists>er'. ListContainers client = Inl er' \<and> er = Wrap er' ''can't list containers''
      \<and> st' = st\<lparr>trace := trace st @ [CallListContainers]\<rparr>"
proof (cases "ListContainers client")
  case (Inl er')
  assume "emitRunningContainers e client st = (Return (Some er), st')"
  with Inl show ?thesis by (simp add: emitRunningContainers_failed)
next
  case (Inr cs)
  assume a: "emitRunningContainers e client st = (Return (Some er), st')"
  from emitRunningContainers_Return [OF Inr a] show ?thesis by simp
qed

lemma NewEventNotif_error_compiled:
  assumes "\<not> (includesPattern \<noteq> [] \<and> isl (Compile includesPattern))"
    and "\<not> (excludesPattern \<noteq> [] \<and> isl (Compile excludesPattern))"
    and "fst (NewEventNotif Compile client excl incl includesPattern excludesPattern) = Return (Inl er)"
  shows "\<exists>er'. er = Wrap er' ''failed to emit containers''"
proof -
  from compileOpt_ok [of includesPattern Compile, OF assms(1)] obtain ire where
    i: "compileOpt Compile includesPattern = Inr ire" by (elim exE)
  from compileOpt_ok [of excludesPattern Compile, OF assms(2)] obtain ere where
    x: "compileOpt Compile excludesPattern = Inr ere" by (elim exE)
  let ?res = "\<lparr>excludes = excl, includes' = incl, includesRegexp = ire, excludesRegexp = ere\<rparr>"
  obtain o1 st where em: "emitRunningContainers ?res client init = (o1, st)"
    by (cases "emitRunningContainers ?res client init")
  from assms(3) show ?thesis
    unfolding NewEventNotif_compiled [OF i x em]
    by (cases o1) (auto split: option.splits)
qed

text \<open>
  C7. When a non-empty include pattern or a non-empty exclude pattern does not compile,
  construction returns an error of the kind \<open>ConfigError\<close> and no notifier, with no
  effect at all: \<^verbatim>\<open>ListContainers\<close> has not been called and nothing has been sent. In
  particular this holds for the include pattern \<open>(\<close> when the library rejects it. When
  no non-empty pattern fails to compile, construction never returns a \<open>ConfigError\<close>; an
  empty pattern is not compiled, and with both patterns empty the notifier has no compiled
  expression.
\<close>

theorem construction_config_error:
  "((includesPattern \<noteq> [] \<and> isl (Compile includesPattern))
      \<or> (excludesPattern \<noteq> [] \<and> isl (Compile excludesPattern)) \<longrightarrow>
      (\<exists>er. NewEventNotif Compile client excl incl includesPattern excludesPattern =
               (Return (Inl er), \<lparr>eventsCh = [], trace = []\<rparr>)
            \<and> ConfigError er))
   \<and> (\<not> (includesPattern \<noteq> [] \<and> isl (Compile includesPattern))
       \<and> \<not> (excludesPattern \<noteq> [] \<and> isl (Compile excludesPattern)) \<longrightarrow>
      (\<forall>er. fst (NewEventNotif Compile client excl incl includesPattern excludesPattern)
               = Return (Inl er) \<longrightarrow> \<not> ConfigError er))
   \<and> (isl (Compile ''('') \<longrightarrow>
      (\<exists>er. NewEventNotif Compile client excl incl ''('' excludesPattern =
               (Return (Inl er), \<lparr>eventsCh = [], trace = []\<rparr>)
            \<and> ConfigError er))
   \<and> (\<forall>n. fst (NewEventNotif Compile client excl incl [] []) = Return (Inr n) \<longrightarrow>
        includesRegexp n = None \<and> excludesRegexp n = None)"
proof -
  have fail: "\<exists>er. NewEventNotif Compile client excl incl ip ep =
               (Return (Inl er), \<lparr>eventsCh = [], trace = []\<rparr>) \<and> ConfigError er"
    if "(ip \<noteq> [] \<and> isl (Compile ip)) \<or> (ep \<noteq> [] \<and> isl (Compile ep))" for ip ep
  proof (cases "ip \<noteq> [] \<and> isl (Compile ip)")
    case True
    then obtain er where "Compile ip = Inl er" by (cases "Compile ip") auto
    with True have "NewEventNotif Compile client excl incl ip ep =
       (Return (Inl (Wrap er ''failed to compile includesPattern'')), \<lparr>eventsCh = [], trace = []\<rparr>)
       \<and> ConfigError (Wrap er ''failed to compile includesPattern'')"
      by (simp add: NewEventNotif_includes_failed init_def)
    then show ?thesis by (intro exI)
  next
    case False
    with that have e: "ep \<noteq> []" "isl (Compile ep)" by auto
    then obtain er where "Compile ep = Inl er" by (cases "Compile ep") auto
    with False e have "NewEventNotif Compile client excl incl ip ep =
       (Return (Inl (Wrap er ''failed to compile excludesPattern'')), \<lparr>eventsCh = [], trace = []\<rparr>)
       \<and> ConfigError (Wrap er ''failed to compile excludesPattern'')"
      by (simp add: NewEventNotif_excludes_failed init_def)
    then show ?thesis by (intro exI)
  qed
  have a: "(includesPattern \<noteq> [] \<and> isl (Compile includesPattern))
      \<or> (excludesPattern \<noteq> [] \<and> isl (Compile excludesPattern)) \<longrightarrow>
      (\<exists>er. NewEventNotif Compile client excl incl includesPattern excludesPattern =
               (Return (Inl er), \<lparr>eventsCh = [], trace = []\<rparr>)
            \<and> ConfigError er)"
    using fail by blast
  have b: "\<not> (includesPattern \<noteq> [] \<and> isl (Compile includesPattern))
       \<and> \<not> (excludesPattern \<noteq> [] \<and> isl (Compile excludesPattern)) \<longrightarrow>
      (\<forall>er. fst (NewEventNotif Compile client excl incl includesPattern excludesPattern)
               = Return (Inl er) \<longrightarrow> \<not> ConfigError er)"
  proof (intro impI allI, elim conjE)
    fix er
    assume 1: "\<not> (includesPattern \<noteq> [] \<and> isl (Compile includesPattern))"
      and 2: "\<not> (excludesPattern \<noteq> [] \<and> isl (Compile excludesPattern))"
      and 3: "fst (NewEventNotif Compile client excl incl includesPattern excludesPattern)
               = Return (Inl er)"
    from NewEventNotif_error_compiled [OF 1 2 3] show "\<not> ConfigError er" by auto
  qed
  have c: "isl (Compile ''('') \<longrightarrow>
      (\<exists>er. NewEventNotif Compile client excl incl ''('' excludesPattern =
               (Return (Inl er), \<lparr>eventsCh = [], trace = []\<rparr>)
            \<and> ConfigError er)"
    using fail [of "''(''" excludesPattern] by simp
  have d: "\<forall>n. fst (NewEventNotif Compile client excl incl [] []) = Return (Inr n) \<longrightarrow>
        includesRegexp n = None \<and> excludesRegexp n = None"
  proof (intro allI impI)
    fix n
    let ?res = "\<lparr>excludes = excl, includes' = incl, includesRegexp = None,
        excludesRegexp = None\<rparr>"
    assume r: "fst (NewEventNotif Compile client excl incl [] []) = Return (Inr n)"
    obtain o1 st where em: "emitRunningContainers ?res client init = (o1, st)"
      by (cases "emitRunningContainers ?res client init")
    from r have "n = ?res"
      unfolding NewEventNotif_compiled [OF compileOpt_empty compileOpt_empty em]
      by (cases o1) (auto split: option.splits)
    then show "includesRegexp n = None \<and> excludesRegexp n = None" by simp
  qed
  from a b c d show ?thesis by (intro conjI)
qed

theorem construction_config_error_witness:
  "NewEventNotif exampleCompile unreachable [] [] ''('' [] =
      (Return (Inl (Wrap (Err ''missing closing )'') ''failed to compile includesPattern'')),
       \<lparr>eventsCh = [], trace = []\<rparr>)
   \<and> NewEventNotif exampleCompile unreachable [] [] ''web'' ''('' =
      (Return (Inl (Wrap (Err ''missing closing )'') ''failed to compile excludesPattern'')),
       \<lparr>eventsCh = [], trace = []\<rparr>)
   \<and> fst (NewEventNotif exampleCompile unreachable [] [] [] []) \<noteq>
       Return (Inl (Wrap (Err ''missing closing )'') ''failed to compile includesPattern''))"
proof -
  have h1: "(''('' \<noteq> [] \<and> isl (exampleCompile ''('')) \<or> ([] \<noteq> ([]::string) \<and> isl (exampleCompile []))"
    by (simp add: exampleCompile_def)
  from construction_config_error [of "''(''" exampleCompile "[]" unreachable "[]" "[]",
      THEN conjunct1, THEN mp, OF h1]
  have 1: "NewEventNotif exampleCompile unreachable [] [] ''('' [] =
      (Return (Inl (Wrap (Err ''missing closing )'') ''failed to compile includesPattern'')),
       \<lparr>eventsCh = [], trace = []\<rparr>)"
    by (auto simp: NewEventNotif_def compileOpt_def exampleCompile_def)
  have h2: "(''web'' \<noteq> [] \<and> isl (exampleCompile ''web'')) \<or> (''('' \<noteq> [] \<and> isl (exampleCompile ''(''))"
    by (simp add: exampleCompile_def)
  from construction_config_error [of "''web''" exampleCompile "''(''" unreachable "[]" "[]",
      THEN conjunct1, THEN mp, OF h2]
  have 2: "NewEventNotif exampleCompile unreachable [] [] ''web'' ''('' =
      (Return (Inl (Wrap (Err ''missing closing )'') ''failed to compile excludesPattern'')),
       \<lparr>eventsCh = [], trace = []\<rparr>)"
    by (auto simp: NewEventNotif_def compileOpt_def exampleCompile_def)
  have h3: "\<not> ([] \<noteq> ([]::string) \<and> isl (exampleCompile []))
       \<and> \<not> ([] \<noteq> ([]::string) \<and> isl (exampleCompile []))" by simp
  from construction_config_error [of "[]" exampleCompile "[]" unreachable "[]" "[]",
      THEN conjunct2, THEN conjunct1, THEN mp, OF h3]
  have 3: "fst (NewEventNotif exampleCompile unreachable [] [] [] []) \<noteq>
       Return (Inl (Wrap (Err ''missing closing )'') ''failed to compile includesPattern''))"
    by auto
  from 1 2 3 show ?thesis by (intro conjI)
qed

lemma NewEventNotif_no_go:
  assumes nn: "\<forall>n. fst (NewEventNotif Compile client excl incl includesPattern excludesPattern)
            \<noteq> Return (Inr n)"
  shows "GoActivate \<notin> set (trace (snd
         (NewEventNotif Compile client excl incl includesPattern excludesPattern)))"
proof -
  let ?N = "NewEventNotif Compile client excl incl includesPattern excludesPattern"
  show ?thesis
  proof (cases "(includesPattern \<noteq> [] \<and> isl (Compile includesPattern))
    \<or> (excludesPattern \<noteq> [] \<and> isl (Compile excludesPattern))")
    case True
    then show ?thesis
    proof (cases "includesPattern \<noteq> [] \<and> isl (Compile includesPattern)")
      case t: True
      then obtain er' where "Compile includesPattern = Inl er'"
        by (cases "Compile includesPattern") auto
      with t show ?thesis by (simp add: NewEventNotif_includes_failed init_def)
    next
      case False
      with True have e: "excludesPattern \<noteq> []" "isl (Compile excludesPattern)" by auto
      then obtain er' where "Compile excludesPattern = Inl er'"
        by (cases "Compile excludesPattern") auto
      with False e show ?thesis by (simp add: NewEventNotif_excludes_failed init_def)
    qed
  next
    case False
    then have 1: "\<not> (includesPattern \<noteq> [] \<and> isl (Compile includesPattern))"
      and 2: "\<not> (excludesPattern \<noteq> [] \<and> isl (Compile excludesPattern))" by auto
    from compileOpt_ok [of includesPattern Compile, OF 1] obtain ire where
      i: "compileOpt Compile includesPattern = Inr ire" by (elim exE)
    from compileOpt_ok [of excludesPattern Compile, OF 2] obtain ere where
      x: "compileOpt Compile excludesPattern = Inr ere" by (elim exE)
    let ?res = "\<lparr>excludes = excl, includes' = incl, includesRegexp = ire,
        excludesRegexp = ere\<rparr>"
    obtain o1 st where em: "emitRunningContainers ?res client init = (o1, st)"
      by (cases "emitRunningContainers ?res client init")
    have ng: "GoActivate \<notin> set (trace st)"
    proof (cases "ListContainers client")
      case (Inl er')
      with em show ?thesis by (auto simp: emitRunningContainers_failed init_def)
    next
      case (Inr cs)
      let ?st1 = "init\<lparr>trace := trace init @ [CallListContainers]\<rparr>"
      have "GoActivate \<notin> set (trace ?st1)" by (simp add: init_def)
      from emitLoop_no_go [OF this, of ?res cs] em show ?thesis
        unfolding emitRunningContainers_listed [OF Inr]
        by (cases "emitLoop ?res cs ?st1") (auto split: outcome.splits)
    qed
    from nn ng show ?thesis
      unfolding NewEventNotif_compiled [OF i x em]
      by (cases o1) (auto split: option.splits)
  qed
qed

text \<open>
  C8. When the patterns are accepted and \<^verbatim>\<open>ListContainers\<close> fails, construction
  returns an error of the kind \<open>CollectorError\<close> and no notifier; it has called
  \<^verbatim>\<open>ListContainers\<close>, sent nothing and not started the listener. More generally,
  whenever construction does not return a notifier, the listener has not been started.
\<close>

theorem construction_listing_failed:
  "(\<not> (includesPattern \<noteq> [] \<and> isl (Compile includesPattern))
     \<and> \<not> (excludesPattern \<noteq> [] \<and> isl (Compile excludesPattern))
     \<and> ListContainers client = Inl er \<longrightarrow>
     NewEventNotif Compile client excl incl includesPattern excludesPattern =
       (Return (Inl (Wrap (Wrap er ''can't list containers'') ''failed to emit containers'')),
        \<lparr>eventsCh = [], trace = [CallListContainers]\<rparr>)
     \<and> CollectorError (Wrap (Wrap er ''can't list containers'') ''failed to emit containers''))
   \<and> ((\<forall>n. fst (NewEventNotif Compile client excl incl includesPattern excludesPattern)
            \<noteq> Return (Inr n)) \<longrightarrow>
       GoActivate \<notin> set (trace (snd
         (NewEventNotif Compile client excl incl includesPattern excludesPattern))))"
proof -
  let ?N = "NewEventNotif Compile client excl incl includesPattern excludesPattern"
  have a: "\<not> (includesPattern \<noteq> [] \<and> isl (Compile includesPattern))
     \<and> \<not> (excludesPattern \<noteq> [] \<and> isl (Compile excludesPattern))
     \<and> ListContainers client = Inl er \<longrightarrow>
     ?N = (Return (Inl (Wrap (Wrap er ''can't list containers'') ''failed to emit containers'')),
        \<lparr>eventsCh = [], trace = [CallListContainers]\<rparr>)
     \<and> CollectorError (Wrap (Wrap er ''can't list containers'') ''failed to emit containers'')"
  proof (intro impI, elim conjE)
    assume 1: "\<not> (includesPattern \<noteq> [] \<and> isl (Compile includesPattern))"
      and 2: "\<not> (excludesPattern \<noteq> [] \<and> isl (Compile excludesPattern))"
      and 3: "ListContainers client = Inl er"
    show "?N = (Return (Inl (Wrap (Wrap er ''can't list containers'') ''failed to emit containers'')),
        \<lparr>eventsCh = [], trace = [CallListContainers]\<rparr>)
     \<and> CollectorError (Wrap (Wrap er ''can't list containers'') ''failed to emit containers'')"
    proof -
      from compileOpt_ok [of includesPattern Compile, OF 1] obtain ire where
        i: "compileOpt Compile includesPattern = Inr ire" by (elim exE)
      from compileOpt_ok [of excludesPattern Compile, OF 2] obtain ere where
        x: "compileOpt Compile excludesPattern = Inr ere" by (elim exE)
      show ?thesis
        by (simp add: NewEventNotif_compiled [OF i x emitRunningContainers_failed [OF 3]]
            init_def)
    qed
  qed
  have b: "(\<forall>n. fst ?N \<noteq> Return (Inr n)) \<longrightarrow> GoActivate \<notin> set (trace (snd ?N))"
    using NewEventNotif_no_go [of Compile client excl incl includesPattern excludesPattern]
    by blast
  from a b show ?thesis by (intro conjI)
qed

theorem construction_listing_failed_witness:
  "NewEventNotif exampleCompile unreachable [''worker''] [] ''web'' [] =
     (Return (Inl (Wrap (Wrap (Err ''connection refused'') ''can't list containers'')
                ''failed to emit containers'')),
      \<lparr>eventsCh = [], trace = [CallListContainers]\<rparr>)
   \<and> GoActivate \<notin> set (trace (snd
        (NewEventNotif exampleCompile unreachable [''worker''] [] ''web'' [])))"
proof -
  let ?N = "NewEventNotif exampleCompile unreachable [''worker''] [] ''web'' []"
  note t = construction_listing_failed [of "''web''" exampleCompile "[]" unreachable
      "Err ''connection refused''" "[''worker'']" "[]"]
  have h: "\<not> (''web'' \<noteq> [] \<and> isl (exampleCompile ''web''))
     \<and> \<not> ([] \<noteq> ([]::string) \<and> isl (exampleCompile []))
     \<and> ListContainers unreachable = Inl (Err ''connection refused'')"
    by (simp add: exampleCompile_def unreachable_def)
  from t [THEN conjunct1, THEN mp, OF h] have 1: "?N =
     (Return (Inl (Wrap (Wrap (Err ''connection refused'') ''can't list containers'')
                ''failed to emit containers'')),
      \<lparr>eventsCh = [], trace = [CallListContainers]\<rparr>)" by (rule conjunct1)
  then have "\<forall>n. fst ?N \<noteq> Return (Inr n)" by simp
  with t [THEN conjunct2] have 2: "GoActivate \<notin> set (trace (snd ?N))" by (rule mp)
  from 1 2 show ?thesis by (intro conjI)
qed

subsection \<open>The order of the events on the channel\<close>

lemma liveEvents_append: "liveEvents e (xs @ ys) = liveEvents e xs @ liveEvents e ys"
  by (induction xs) (simp_all split: option.splits)

lemma step_invariant:
  assumes "step e client s s'"
    and "raw = consumed @ feed s \<and> written s = snap @ liveEvents e consumed
         \<and> delivered s @ chan s = written s"
  shows "\<exists>consumed'. raw = consumed' @ feed s' \<and> written s' = snap @ liveEvents e consumed'
         \<and> delivered s' @ chan s' = written s'"
  using assms
proof (cases rule: step.cases)
  case subscribe
  with assms(2) have "raw = consumed @ feed s' \<and> written s' = snap @ liveEvents e consumed
         \<and> delivered s' @ chan s' = written s'" by simp
  then show ?thesis by (intro exI)
next
  case (subscribe_failed er)
  with assms(2) have "raw = consumed @ feed s' \<and> written s' = snap @ liveEvents e consumed
         \<and> delivered s' @ chan s' = written s'" by simp
  then show ?thesis by (intro exI)
next
  case (skip dockerEvent rest)
  with assms(2) have "raw = (consumed @ [dockerEvent]) @ feed s'
         \<and> written s' = snap @ liveEvents e (consumed @ [dockerEvent])
         \<and> delivered s' @ chan s' = written s'"
    by (simp add: liveEvents_append)
  then show ?thesis by (intro exI)
next
  case (emit dockerEvent rest event)
  with assms(2) have "raw = (consumed @ [dockerEvent]) @ feed s'
         \<and> written s' = snap @ liveEvents e (consumed @ [dockerEvent])
         \<and> delivered s' @ chan s' = written s'"
    by (simp add: liveEvents_append)
  then show ?thesis by (intro exI)
next
  case closed
  with assms(2) have "raw = consumed @ feed s' \<and> written s' = snap @ liveEvents e consumed
         \<and> delivered s' @ chan s' = written s'" by simp
  then show ?thesis by (intro exI)
next
  case (receive event rest)
  with assms(2) have "raw = consumed @ feed s' \<and> written s' = snap @ liveEvents e consumed
         \<and> delivered s' @ chan s' = written s'" by simp
  then show ?thesis by (intro exI)
qed

lemma steps_invariant:
  assumes "(step e client)\<^sup>*\<^sup>* (started st raw) s"
  shows "\<exists>consumed. raw = consumed @ feed s \<and> written s = eventsCh st @ liveEvents e consumed
         \<and> delivered s @ chan s = written s"
  using assms
proof (induction rule: rtranclp_induct)
  case base
  have "raw = [] @ feed (started st raw)
      \<and> written (started st raw) = eventsCh st @ liveEvents e []
      \<and> delivered (started st raw) @ chan (started st raw) = written (started st raw)"
    by (simp add: started_def)
  then show ?case by (intro exI)
next
  case (step y z)
  then obtain consumed where "raw = consumed @ feed y \<and> written y = eventsCh st @ liveEvents e consumed
         \<and> delivered y @ chan y = written y" by (elim exE)
  from step_invariant [OF step.hyps(2) this] show ?case .
qed

lemma NewEventNotif_notifier:
  assumes "NewEventNotif Compile client excl incl includesPattern excludesPattern
             = (Return (Inr n), st)"
  shows "\<exists>cs. ListContainers client = Inr cs \<and> (\<forall>c\<in>set cs. Names c \<noteq> [])
          \<and> excludes n = excl \<and> includes' n = incl
          \<and> eventsCh st = map snapshotEvent (filter (\<lambda>c. isAllowed n (snapshotName c)) cs)
          \<and> trace st = CallListContainers # map ChanSend (eventsCh st) @ [GoActivate]"
proof -
  let ?N = "NewEventNotif Compile client excl incl includesPattern excludesPattern"
  have 1: "\<not> (includesPattern \<noteq> [] \<and> isl (Compile includesPattern))"
  proof
    assume a: "includesPattern \<noteq> [] \<and> isl (Compile includesPattern)"
    then obtain er where "Compile includesPattern = Inl er"
      by (cases "Compile includesPattern") auto
    with a assms show False by (simp add: NewEventNotif_includes_failed)
  qed
  have 2: "\<not> (excludesPattern \<noteq> [] \<and> isl (Compile excludesPattern))"
  proof
    assume a: "excludesPattern \<noteq> [] \<and> isl (Compile excludesPattern)"
    then obtain er where "Compile excludesPattern = Inl er"
      by (cases "Compile excludesPattern") auto
    with a 1 assms show False by (simp add: NewEventNotif_excludes_failed)
  qed
  from compileOpt_ok [of includesPattern Compile, OF 1] obtain ire where
    i: "compileOpt Compile includesPattern = Inr ire" by (elim exE)
  from compileOpt_ok [of excludesPattern Compile, OF 2] obtain ere where
    x: "compileOpt Compile excludesPattern = Inr ere" by (elim exE)
  let ?res = "\<lparr>excludes = excl, includes' = incl, includesRegexp = ire, excludesRegexp = ere\<rparr>"
  obtain o1 st1 where em: "emitRunningContainers ?res client init = (o1, st1)"
    by (cases "emitRunningContainers ?res client init")
  from assms have r: "o1 = Return None \<and> n = ?res \<and> st = st1\<lparr>trace := trace st1 @ [GoActivate]\<rparr>"
    unfolding NewEventNotif_compiled [OF i x em]
    by (cases o1) (auto split: option.splits)
  obtain cs where l: "ListContainers client = Inr cs"
  proof (cases "ListContainers client")
    case (Inl er)
    with em r show ?thesis by (simp add: emitRunningContainers_failed)
  next
    case (Inr cs)
    then show ?thesis by (rule that)
  qed
  from em r have "emitRunningContainers ?res client init = (Return None, st1)" by simp
  from emitRunningContainers_Return [OF l this]
  have "ListContainers client = Inr cs \<and> (\<forall>c\<in>set cs. Names c \<noteq> [])
          \<and> excludes n = excl \<and> includes' n = incl
          \<and> eventsCh st = map snapshotEvent (filter (\<lambda>c. isAllowed n (snapshotName c)) cs)
          \<and> trace st = CallListContainers # map ChanSend (eventsCh st) @ [GoActivate]"
    using l r by (simp add: init_def)
  then show ?thesis by (intro exI)
qed

text \<open>
  C9. When construction returns a notifier, its effects are, in this order: the call of
  \<^verbatim>\<open>ListContainers\<close>, the sends of the snapshot events in listing order, and only
  then the \<^verbatim>\<open>go\<close> statement that starts the listener; when it returns no notifier
  the listener is never started. From then on, in every interleaving of the listener and
  the consumer, the events written to the channel are the snapshot events followed by the
  events the listener made of the raw events it has consumed so far, in the order of the
  feed; and the events the consumer has received followed by the buffer of the channel are
  exactly the events written: delivery is first in, first out.
\<close>

theorem snapshot_before_live:
  "(NewEventNotif Compile client excl incl includesPattern excludesPattern = (Return (Inr n), st) \<longrightarrow>
     (\<exists>cs. ListContainers client = Inr cs
         \<and> eventsCh st = map snapshotEvent (filter (\<lambda>c. isAllowed n (snapshotName c)) cs)
         \<and> trace st = CallListContainers # map ChanSend (eventsCh st) @ [GoActivate])
     \<and> (\<forall>raw s. (step n client)\<^sup>*\<^sup>* (started st raw) s \<longrightarrow>
          (\<exists>consumed. raw = consumed @ feed s
             \<and> written s = eventsCh st @ liveEvents n consumed
             \<and> delivered s @ chan s = written s)))
   \<and> ((\<forall>n. fst (NewEventNotif Compile client excl incl includesPattern excludesPattern)
            \<noteq> Return (Inr n)) \<longrightarrow>
       GoActivate \<notin> set (trace (snd
         (NewEventNotif Compile client excl incl includesPattern excludesPattern))))"
proof (intro conjI impI)
  assume a: "NewEventNotif Compile client excl incl includesPattern excludesPattern
      = (Return (Inr n), st)"
  from NewEventNotif_notifier [OF a] obtain cs where
    "ListContainers client = Inr cs
      \<and> eventsCh st = map snapshotEvent (filter (\<lambda>c. isAllowed n (snapshotName c)) cs)
      \<and> trace st = CallListContainers # map ChanSend (eventsCh st) @ [GoActivate]"
    by (elim exE conjE) simp
  then show "\<exists>cs. ListContainers client = Inr cs
         \<and> eventsCh st = map snapshotEvent (filter (\<lambda>c. isAllowed n (snapshotName c)) cs)
         \<and> trace st = CallListContainers # map ChanSend (eventsCh st) @ [GoActivate]"
    by (intro exI)
next
  show "\<forall>raw s. (step n client)\<^sup>*\<^sup>* (started st raw) s \<longrightarrow>
          (\<exists>consumed. raw = consumed @ feed s
             \<and> written s = eventsCh st @ liveEvents n consumed
             \<and> delivered s @ chan s = written s)"
    using steps_invariant by blast
next
  assume "\<forall>n. fst (NewEventNotif Compile client excl incl includesPattern excludesPattern)
            \<noteq> Return (Inr n)"
  then show "GoActivate \<notin> set (trace (snd
         (NewEventNotif Compile client excl incl includesPattern excludesPattern)))"
    by (rule NewEventNotif_no_go)
qed

lemma activateEvent_unrestricted:
  "CHR ''.'' \<notin> set name \<Longrightarrow>
   activateEvent (listPolicy [] []) (rawEvent ''container'' ''stop'' (''/'' @ name) from) =
     Some \<lparr>ContainerID = ''c1'', ContainerName = name,
            Group = group from, TS = Unix (quo 0 1000) 0, Status = False\<rparr>"
  using buildContainerName_no_swarm [of name "[''name'' \<mapsto> ''/'' @ name]"]
    no_dot_no_swarm [of name]
  by (simp add: activateEvent_def rawEvent_def status_sets isAllowed_def listPolicy_def Let_def
      index_map_def TrimPrefix_def buildGroupName_def)

theorem snapshot_before_live_witness:
  "NewEventNotif exampleCompile (listing [exampleContainer ''2'' ''/api'' ''img'' 1000]) [] [] [] []
     = (Return (Inr (listPolicy [] [])),
        \<lparr>eventsCh = [snapshotEvent (exampleContainer ''2'' ''/api'' ''img'' 1000)],
         trace = [CallListContainers,
                  ChanSend (snapshotEvent (exampleContainer ''2'' ''/api'' ''img'' 1000)),
                  GoActivate]\<rparr>)
   \<and> (step (listPolicy [] []) (listing [exampleContainer ''2'' ''/api'' ''img'' 1000]))\<^sup>*\<^sup>*
        (started
           \<lparr>eventsCh = [snapshotEvent (exampleContainer ''2'' ''/api'' ''img'' 1000)],
            trace = [CallListContainers,
                  ChanSend (snapshotEvent (exampleContainer ''2'' ''/api'' ''img'' 1000)),
                  GoActivate]\<rparr>
           [rawEvent ''container'' ''stop'' ''/api'' ''img''])
        \<lparr>chan = liveEvents (listPolicy [] []) [rawEvent ''container'' ''stop'' ''/api'' ''img''],
         feed = [], lstate = Listening,
         written = snapshotEvent (exampleContainer ''2'' ''/api'' ''img'' 1000)
            # liveEvents (listPolicy [] []) [rawEvent ''container'' ''stop'' ''/api'' ''img''],
         delivered = [snapshotEvent (exampleContainer ''2'' ''/api'' ''img'' 1000)]\<rparr>
   \<and> (\<exists>consumed. [rawEvent ''container'' ''stop'' ''/api'' ''img''] = consumed @ []
        \<and> snapshotEvent (exampleContainer ''2'' ''/api'' ''img'' 1000)
             # liveEvents (listPolicy [] []) [rawEvent ''container'' ''stop'' ''/api'' ''img'']
           = [snapshotEvent (exampleContainer ''2'' ''/api'' ''img'' 1000)]
             @ liveEvents (listPolicy [] []) consumed)
   \<and> GoActivate \<notin> set (trace (snd (NewEventNotif exampleCompile unreachable [] [] [] [])))"
proof -
  let ?p = "listPolicy [] []"
  let ?a = "exampleContainer ''2'' ''/api'' ''img'' 1000"
  let ?client = "listing [?a]"
  let ?ev = "rawEvent ''container'' ''stop'' ''/api'' ''img''"
  let ?st = "\<lparr>eventsCh = [snapshotEvent ?a],
              trace = [CallListContainers, ChanSend (snapshotEvent ?a), GoActivate]\<rparr>"
  let ?x = "\<lparr>ContainerID = ''c1'', ContainerName = ''api'',
            Group = group ''img'', TS = Unix (quo 0 1000) 0, Status = False\<rparr>"
  let ?s0 = "started ?st [?ev]"
  let ?s1 = "\<lparr>chan = [snapshotEvent ?a], feed = [?ev], lstate = Listening,
              written = [snapshotEvent ?a], delivered = []\<rparr>"
  let ?s2 = "\<lparr>chan = [snapshotEvent ?a, ?x], feed = [], lstate = Listening,
              written = [snapshotEvent ?a, ?x], delivered = []\<rparr>"
  let ?s3 = "\<lparr>chan = [?x], feed = [], lstate = Listening,
              written = [snapshotEvent ?a, ?x], delivered = [snapshotEvent ?a]\<rparr>"
  have x: "activateEvent ?p ?ev = Some ?x"
    using activateEvent_unrestricted [of "''api''" "''img''"] by simp
  then have live: "liveEvents ?p [?ev] = [?x]" by simp
  have allowed: "isAllowed ?p (snapshotName c)" for c
    by (simp add: isAllowed_def listPolicy_def)
  have em: "emitRunningContainers ?p ?client init =
      (Return None, \<lparr>eventsCh = [snapshotEvent ?a],
          trace = [CallListContainers, ChanSend (snapshotEvent ?a)]\<rparr>)"
    using emitRunningContainers_total [of ?client "[?a]" init ?p]
    by (simp add: listing_def exampleContainer_def init_def capacity_def allowed)
  have n: "NewEventNotif exampleCompile ?client [] [] [] [] = (Return (Inr ?p), ?st)"
    using NewEventNotif_compiled [where Compile = exampleCompile,
        OF compileOpt_empty compileOpt_empty em [unfolded listPolicy_def]]
    by (simp add: listPolicy_def)
  have 1: "step ?p ?client ?s0 ?s1"
    using step.subscribe [of ?s0 ?client ?p] by (simp add: started_def listing_def)
  have 2: "step ?p ?client ?s1 ?s2"
    using step.emit [of ?s1 ?ev "[]" ?p ?x ?client] x by (simp add: capacity_def)
  have 3: "step ?p ?client ?s2 ?s3"
    using step.receive [of ?s2 "snapshotEvent ?a" "[?x]" ?p ?client] by simp
  from 1 2 3 have "(step ?p ?client)\<^sup>*\<^sup>* ?s0 ?s3"
    by (meson rtranclp.rtrancl_into_rtrancl rtranclp.rtrancl_refl)
  then have r: "(step ?p ?client)\<^sup>*\<^sup>* ?s0
      \<lparr>chan = liveEvents ?p [?ev], feed = [], lstate = Listening,
       written = snapshotEvent ?a # liveEvents ?p [?ev], delivered = [snapshotEvent ?a]\<rparr>"
    by (simp only: live)
  from snapshot_before_live [of exampleCompile ?client "[]" "[]" "[]" "[]" ?p ?st,
      THEN conjunct1, THEN mp, OF n, THEN conjunct2, THEN spec, THEN spec, THEN mp, OF r]
  have c: "\<exists>consumed. [?ev] = consumed @ []
        \<and> snapshotEvent ?a # liveEvents ?p [?ev] = [snapshotEvent ?a] @ liveEvents ?p consumed"
    by simp
  have "NewEventNotif exampleCompile unreachable [] [] [] [] =
      (Return (Inl (Wrap (Wrap (Err ''connection refused'') ''can't list containers'')
                 ''failed to emit containers'')),
       \<lparr>eventsCh = [], trace = [CallListContainers]\<rparr>)"
    by (simp add: NewEventNotif_def compileOpt_def emitRunningContainers_def unreachable_def
        init_def)
  then have f: "\<forall>n. fst (NewEventNotif exampleCompile unreachable [] [] [] []) \<noteq> Return (Inr n)"
    by simp
  from snapshot_before_live [of exampleCompile unreachable "[]" "[]" "[]" "[]",
      THEN conjunct2, THEN mp, OF f]
  have g: "GoActivate \<notin> set (trace (snd (NewEventNotif exampleCompile unreachable [] [] [] [])))" .
  from n r c g show ?thesis by (intro conjI)
qed

end
